theory Spec2Isabelle
  imports Main "HOL-Library.Word"
begin

unbundle bit_operations_syntax

section \<open>Common data\<close>

text \<open>
  Buffers are Go byte slices, modelled as lists of 8-bit words. Go's \<open>int\<close> is modelled
  by \<open>nat\<close> where the source keeps the value non-negative (cursors, lengths, decoded
  offsets; every subtraction on them stands behind the comparison that guards it in the
  source) and by \<open>int\<close> where it can be negative (hash-table entries, the encoder's
  candidate offset and the arguments of \<open>emitMatch\<close>). These values are bounded by the
  lengths of the two slices, which stay far below 2^63 for every slice a Go program can
  hold, so no wrap-around is modelled for them. Wrap-around is modelled in the two places
  where it can happen: the 32-bit multiplicative hash is a \<open>32 word\<close>, and
  \<open>MaxCompressedSize\<close>, whose argument is any \<open>int\<close>, computes in 64-bit two's complement.

  An index outside a slice makes the Go runtime panic. The model makes that a value:
  \<open>Fault\<close> for one decoder step, \<open>Panic\<close> for a whole call, \<open>None\<close> in the helper
  loops.
\<close>

type_synonym byte = "8 word"

datatype error = ErrInputOverrun | ErrOutputOverrun | ErrLookbehindOverrun | ErrCorrupted

text \<open>
  The result of a call: \<open>Return n err d\<close> is the Go return value \<open>(n, err)\<close> (\<open>None\<close> is
  \<open>nil\<close>) together with the content \<open>d\<close> of the destination slice at that moment.
\<close>

datatype result = Return nat "error option" "byte list" | Panic

definition m2MaxOffset :: nat where "m2MaxOffset = 0x0700"
definition m4MaxOffset :: nat where "m4MaxOffset = 0x4000"

section \<open>The decoder\<close>

datatype dstate =
  stateStart | stateLiteralRun | stateFirstLiteralRun | stateMatch
  | stateMatchDone | stateMatchNext | stateEOF

record dec =
  ip :: nat
  op :: nat
  lastMOff :: nat
  state :: dstate
  dst :: "byte list"

text \<open>
  One pass of the \<open>switch\<close>: \<open>Next s\<close> goes round the loop again, \<open>Halt n e d\<close> is
  \<open>return n, e\<close> with destination content \<open>d\<close>, \<open>Fault\<close> is an index out of range.
\<close>

datatype step = Next dec | Halt nat error "byte list" | Fault

definition halt :: "dec \<Rightarrow> error \<Rightarrow> step" where
  "halt s e = Halt (op s) e (dst s)"

text \<open>A checked read \<open>xs[i]\<close>, continuing with the byte read.\<close>

definition index :: "byte list \<Rightarrow> nat \<Rightarrow> (byte \<Rightarrow> step) \<Rightarrow> step" where
  "index xs i k = (if i < length xs then k (xs ! i) else Fault)"

text \<open>\<open>for i := 0; i < t; i++ { dst[op] = src[ip]; op++; ip++ }\<close>\<close>

fun copy_literals :: "byte list \<Rightarrow> nat \<Rightarrow> dec \<Rightarrow> dec option" where
  "copy_literals src 0 s = Some s"
| "copy_literals src (Suc n) s =
     (if ip s < length src \<and> op s < length (dst s)
      then copy_literals src n (s\<lparr>dst := (dst s)[op s := src ! ip s], op := op s + 1, ip := ip s + 1\<rparr>)
      else None)"

text \<open>
  \<open>for i := 0; i < mLen; i++ { dst[op] = dst[mPos]; op++; mPos++ }\<close>; the two M1 sites
  write the same loop unrolled (two and three assignments).
\<close>

fun copy_match :: "nat \<Rightarrow> nat \<Rightarrow> dec \<Rightarrow> dec option" where
  "copy_match 0 mPos s = Some s"
| "copy_match (Suc n) mPos s =
     (if mPos < length (dst s) \<and> op s < length (dst s)
      then copy_match n (mPos + 1) (s\<lparr>dst := (dst s)[op s := dst s ! mPos], op := op s + 1\<rparr>)
      else None)"

text \<open>The two output/input checks and the literal copy that follow every literal count.\<close>

definition copy_run :: "byte list \<Rightarrow> nat \<Rightarrow> dstate \<Rightarrow> dec \<Rightarrow> step" where
  "copy_run src t nxt s =
     (if op s + t > length (dst s) then halt s ErrOutputOverrun
      else if ip s + t > length src then halt s ErrInputOverrun
      else case copy_literals src t s of
             None \<Rightarrow> Fault
           | Some s' \<Rightarrow> Next (s'\<lparr>state := nxt\<rparr>))"

text \<open>The lookbehind and output checks and the copy that end every match opcode.\<close>

definition copy_back :: "nat \<Rightarrow> nat \<Rightarrow> dec \<Rightarrow> step" where
  "copy_back mOff mLen s =
     (if mOff > op s then halt s ErrLookbehindOverrun
      else if op s + mLen > length (dst s) then halt s ErrOutputOverrun
      else case copy_match mLen (op s - mOff) s of
             None \<Rightarrow> Fault
           | Some s' \<Rightarrow> Next (s'\<lparr>state := stateMatchDone\<rparr>))"

text \<open>\<open>for ip < inLen && src[ip] == 0 { t += 255; ip++ }\<close>, returning \<open>(ip, t)\<close>.\<close>

function skip_zero_bytes :: "byte list \<Rightarrow> nat \<Rightarrow> nat \<Rightarrow> nat \<times> nat" where
  "skip_zero_bytes src i t =
     (if i < length src \<and> src ! i = 0 then skip_zero_bytes src (i + 1) (t + 255) else (i, t))"
  by pat_completeness auto
termination
  by (relation "measure (\<lambda>(src, i, t). length src - i)") auto

declare skip_zero_bytes.simps [simp del]

text \<open>
  The extended-length protocol after a zero length field: skip the zero bytes, then add
  the base and the closing byte. \<open>None\<close> is the \<open>ErrInputOverrun\<close> return.
\<close>

definition ext_len :: "byte list \<Rightarrow> nat \<Rightarrow> nat \<Rightarrow> dec \<Rightarrow> (dec \<times> nat) option" where
  "ext_len src base t s =
     (case skip_zero_bytes src (ip s) t of
        (i, t') \<Rightarrow> if i \<ge> length src then None
                   else Some (s\<lparr>ip := i + 1\<rparr>, t' + base + unat (src ! i)))"

definition step_Start :: "byte list \<Rightarrow> dec \<Rightarrow> step" where
  "step_Start src s =
     (if ip s \<ge> length src then halt s ErrInputOverrun
      else index src (ip s) (\<lambda>b.
        let t = unat b in
        if t > 17 then
          (let s1 = s\<lparr>ip := ip s + 1\<rparr>; t1 = t - 17 in
           if t1 < 4 then copy_run src t1 stateMatchNext s1
           else copy_run src t1 stateFirstLiteralRun s1)
        else Next (s\<lparr>state := stateLiteralRun\<rparr>)))"

definition step_LiteralRun :: "byte list \<Rightarrow> dec \<Rightarrow> step" where
  "step_LiteralRun src s =
     (if ip s \<ge> length src then halt s ErrInputOverrun
      else index src (ip s) (\<lambda>b.
        let t = unat b; s1 = s\<lparr>ip := ip s + 1\<rparr> in
        if t \<ge> 16 then Next (s1\<lparr>ip := ip s1 - 1, state := stateMatch\<rparr>)
        else if t = 0 then
          (case ext_len src 15 t s1 of
             None \<Rightarrow> halt s1 ErrInputOverrun
           | Some (s2, t2) \<Rightarrow> copy_run src (t2 + 3) stateFirstLiteralRun s2)
        else copy_run src (t + 3) stateFirstLiteralRun s1))"

definition step_FirstLiteralRun :: "byte list \<Rightarrow> dec \<Rightarrow> step" where
  "step_FirstLiteralRun src s =
     (if ip s \<ge> length src then halt s ErrInputOverrun
      else index src (ip s) (\<lambda>b.
        let t = unat b; s1 = s\<lparr>ip := ip s + 1\<rparr> in
        if t \<ge> 16 then Next (s1\<lparr>ip := ip s1 - 1, state := stateMatch\<rparr>)
        else if ip s1 \<ge> length src then halt s1 ErrInputOverrun
        else index src (ip s1) (\<lambda>b1.
          let mOff = (1 + m2MaxOffset) + push_bit 6 t + unat (drop_bit 2 b1) in
          copy_back mOff 3 (s1\<lparr>ip := ip s1 + 1, lastMOff := mOff\<rparr>))))"

text \<open>
  The four match opcodes of \<open>stateMatch\<close>, one definition per branch of the source's
  \<open>if t >= 64 ... else if t >= 32 ... else if t >= 16 ... else\<close>; \<open>t\<close> is the tag byte
  and \<open>s1\<close> the state after \<open>ip++\<close>.
\<close>

definition match_M2 :: "byte list \<Rightarrow> nat \<Rightarrow> dec \<Rightarrow> step" where
  "match_M2 src t s1 =
     (let off = t AND 0x1f; mLen = ((drop_bit 5 t) - 1) + 2 in
      if off \<ge> 0x1c then
        (if lastMOff s1 = 0 then halt s1 ErrLookbehindOverrun
         else copy_back (lastMOff s1) mLen s1)
      else if ip s1 \<ge> length src then halt s1 ErrInputOverrun
      else index src (ip s1) (\<lambda>b1.
        let mOff = 1 + push_bit 6 off + unat (drop_bit 2 b1) in
        copy_back mOff mLen (s1\<lparr>ip := ip s1 + 1, lastMOff := mOff\<rparr>)))"

definition match_M3 :: "byte list \<Rightarrow> nat \<Rightarrow> dec \<Rightarrow> step" where
  "match_M3 src t s1 =
     (case (if t AND 31 = 0 then ext_len src 31 (t AND 31) s1 else Some (s1, t AND 31)) of
        None \<Rightarrow> halt s1 ErrInputOverrun
      | Some (s2, mLen) \<Rightarrow>
          if ip s2 + 2 > length src then halt s2 ErrInputOverrun
          else index src (ip s2) (\<lambda>b0. index src (ip s2 + 1) (\<lambda>b1.
            let mOff = 1 + push_bit 6 (unat b0) + unat (drop_bit 2 b1) in
            copy_back mOff (mLen + 2) (s2\<lparr>ip := ip s2 + 2, lastMOff := mOff\<rparr>))))"

definition match_M4 :: "byte list \<Rightarrow> nat \<Rightarrow> dec \<Rightarrow> step" where
  "match_M4 src t s1 =
     (case (if t AND 7 = 0 then ext_len src 7 (t AND 7) s1 else Some (s1, t AND 7)) of
        None \<Rightarrow> halt s1 ErrInputOverrun
      | Some (s2, mLen) \<Rightarrow>
          if ip s2 + 2 > length src then halt s2 ErrInputOverrun
          else index src (ip s2) (\<lambda>b0. index src (ip s2 + 1) (\<lambda>b1.
            let mOff = push_bit 11 (t AND 8) + (push_bit 6 (unat b0) + unat (drop_bit 2 b1));
                s3 = s2\<lparr>ip := ip s2 + 2\<rparr> in
            if mOff = 0 then Next (s3\<lparr>state := stateEOF\<rparr>)
            else let mOff' = mOff + m4MaxOffset in
                 copy_back mOff' (mLen + 2) (s3\<lparr>lastMOff := mOff'\<rparr>))))"

definition match_M1 :: "byte list \<Rightarrow> nat \<Rightarrow> dec \<Rightarrow> step" where
  "match_M1 src t s1 =
     (if ip s1 \<ge> length src then halt s1 ErrInputOverrun
      else index src (ip s1) (\<lambda>b1.
        let mOff = 1 + push_bit 6 t + unat (drop_bit 2 b1) in
        copy_back mOff 2 (s1\<lparr>ip := ip s1 + 1, lastMOff := mOff\<rparr>)))"

definition step_Match :: "byte list \<Rightarrow> dec \<Rightarrow> step" where
  "step_Match src s =
     (if ip s \<ge> length src then halt s ErrInputOverrun
      else index src (ip s) (\<lambda>b.
        let t = unat b; s1 = s\<lparr>ip := ip s + 1\<rparr> in
        if t \<ge> 64 then match_M2 src t s1
        else if t \<ge> 32 then match_M3 src t s1
        else if t \<ge> 16 then match_M4 src t s1
        else match_M1 src t s1))"

definition step_MatchDone :: "byte list \<Rightarrow> dec \<Rightarrow> step" where
  "step_MatchDone src s =
     (if ip s = 0 \<or> ip s > length src then Next (s\<lparr>state := stateLiteralRun\<rparr>)
      else index src (ip s - 1) (\<lambda>b.
        let t = unat b AND 3 in
        if t = 0 then Next (s\<lparr>state := stateLiteralRun\<rparr>)
        else copy_run src t stateMatchNext s))"

text \<open>
  The body of \<open>for state != stateEOF { switch state { ... } }\<close>. The switch has no
  case for \<open>stateEOF\<close>; the loop never enters it there.
\<close>

definition dstep :: "byte list \<Rightarrow> dec \<Rightarrow> step" where
  "dstep src s =
     (case state s of
        stateStart \<Rightarrow> step_Start src s
      | stateLiteralRun \<Rightarrow> step_LiteralRun src s
      | stateFirstLiteralRun \<Rightarrow> step_FirstLiteralRun src s
      | stateMatch \<Rightarrow> step_Match src s
      | stateMatchDone \<Rightarrow> step_MatchDone src s
      | stateMatchNext \<Rightarrow> Next (s\<lparr>state := stateMatch\<rparr>)
      | stateEOF \<Rightarrow> Next s)"

function run :: "byte list \<Rightarrow> dec \<Rightarrow> result" where
  "run src s =
     (if state s = stateEOF then Return (op s) None (dst s)
      else case dstep src s of
             Next s' \<Rightarrow> run src s'
           | Halt n e d \<Rightarrow> Return n (Some e) d
           | Fault \<Rightarrow> Panic)"
  by pat_completeness auto

definition Decompress :: "byte list \<Rightarrow> byte list \<Rightarrow> result" where
  "Decompress src d =
     (if length src = 0 then Return 0 None d
      else run src \<lparr>ip = 0, op = 0, lastMOff = 0, state = stateStart, dst = d\<rparr>)"

section \<open>Termination of the decoder loop\<close>

text \<open>
  Every pass of the loop either consumes input or moves to a state of lower rank
  without moving the input cursor, so the loop ends on every input.
\<close>

lemma copy_literals_fields:
  "copy_literals src n s = Some s' \<Longrightarrow>
     ip s' = ip s + n \<and> op s' = op s + n \<and> lastMOff s' = lastMOff s \<and> state s' = state s
     \<and> length (dst s') = length (dst s)"
  by (induction n arbitrary: s) (auto split: if_splits)

lemma copy_match_fields:
  "copy_match n p s = Some s' \<Longrightarrow>
     ip s' = ip s \<and> op s' = op s + n \<and> lastMOff s' = lastMOff s \<and> state s' = state s
     \<and> length (dst s') = length (dst s)"
  by (induction n arbitrary: p s) (auto split: if_splits)

lemma copy_literals_ok:
  "ip s + n \<le> length src \<Longrightarrow> op s + n \<le> length (dst s) \<Longrightarrow> copy_literals src n s \<noteq> None"
  by (induction n arbitrary: s) auto

lemma copy_match_ok:
  "p \<le> op s \<Longrightarrow> op s + n \<le> length (dst s) \<Longrightarrow> copy_match n p s \<noteq> None"
  by (induction n arbitrary: p s) auto

lemma skip_zero_bytes_mono:
  "skip_zero_bytes src i t = (i', t') \<Longrightarrow> i \<le> i'"
proof (induction src i t rule: skip_zero_bytes.induct)
  case (1 src i t)
  show ?case
  proof (cases "i < length src \<and> src ! i = 0")
    case True
    with "1.prems" have "skip_zero_bytes src (i + 1) (t + 255) = (i', t')"
      by (simp add: skip_zero_bytes.simps [of src i t])
    with "1.IH" True have "i + 1 \<le> i'" by blast
    then show ?thesis by simp
  next
    case False
    with "1.prems" show ?thesis
      by (simp add: skip_zero_bytes.simps [of src i t])
  qed
qed

lemma ext_len_fields:
  "ext_len src base t s = Some (s', n) \<Longrightarrow>
     ip s < ip s' \<and> ip s' \<le> length src \<and> op s' = op s \<and> lastMOff s' = lastMOff s
     \<and> state s' = state s \<and> dst s' = dst s"
  by (auto simp: ext_len_def split: prod.splits if_splits dest: skip_zero_bytes_mono)

lemma copy_run_Next:
  "copy_run src t nxt s = Next s' \<Longrightarrow>
     ip s' = ip s + t \<and> ip s' \<le> length src \<and> op s' = op s + t \<and> state s' = nxt
     \<and> lastMOff s' = lastMOff s \<and> length (dst s') = length (dst s)"
  by (auto simp: copy_run_def halt_def split: if_splits option.splits dest: copy_literals_fields)

lemma copy_back_Next:
  "copy_back mOff mLen s = Next s' \<Longrightarrow>
     ip s' = ip s \<and> op s' = op s + mLen \<and> state s' = stateMatchDone
     \<and> lastMOff s' = lastMOff s \<and> length (dst s') = length (dst s)"
  by (auto simp: copy_back_def halt_def split: if_splits option.splits dest: copy_match_fields)

definition rank :: "dstate \<Rightarrow> nat" where
  "rank k = (case k of stateStart \<Rightarrow> 2 | stateMatchDone \<Rightarrow> 2 | stateLiteralRun \<Rightarrow> 1
     | stateFirstLiteralRun \<Rightarrow> 1 | stateMatchNext \<Rightarrow> 1 | stateMatch \<Rightarrow> 0 | stateEOF \<Rightarrow> 0)"

definition progress :: "byte list \<Rightarrow> dec \<Rightarrow> dec \<Rightarrow> bool" where
  "progress src s s' \<longleftrightarrow>
     (ip s < ip s' \<and> ip s < length src) \<or> (ip s' = ip s \<and> rank (state s') < rank (state s))"

lemma step_Start_progress:
  "state s = stateStart \<Longrightarrow> step_Start src s = Next s' \<Longrightarrow> progress src s s'"
  by (auto simp: step_Start_def halt_def index_def Let_def progress_def rank_def
      split: if_splits dest!: copy_run_Next)

lemma step_LiteralRun_progress:
  "state s = stateLiteralRun \<Longrightarrow> step_LiteralRun src s = Next s' \<Longrightarrow> progress src s s'"
  by (auto simp: step_LiteralRun_def halt_def index_def Let_def progress_def rank_def
      split: if_splits option.splits dest!: copy_run_Next ext_len_fields)

lemma step_FirstLiteralRun_progress:
  "state s = stateFirstLiteralRun \<Longrightarrow> step_FirstLiteralRun src s = Next s' \<Longrightarrow> progress src s s'"
  by (auto simp: step_FirstLiteralRun_def halt_def index_def Let_def progress_def rank_def
      split: if_splits option.splits dest!: copy_back_Next)

lemma match_M2_progress:
  "match_M2 src t s1 = Next s' \<Longrightarrow> ip s1 \<le> ip s'"
  by (auto simp: match_M2_def halt_def index_def Let_def
      split: if_splits dest!: copy_back_Next)

lemma match_M3_progress:
  "match_M3 src t s1 = Next s' \<Longrightarrow> ip s1 \<le> ip s'"
  by (auto simp: match_M3_def halt_def index_def Let_def
      split: if_splits option.splits dest!: copy_back_Next ext_len_fields)

lemma match_M4_progress:
  "match_M4 src t s1 = Next s' \<Longrightarrow> ip s1 \<le> ip s'"
  by (auto simp: match_M4_def halt_def index_def Let_def
      split: if_splits option.splits dest!: copy_back_Next ext_len_fields)

lemma match_M1_progress:
  "match_M1 src t s1 = Next s' \<Longrightarrow> ip s1 \<le> ip s'"
  by (auto simp: match_M1_def halt_def index_def Let_def
      split: if_splits dest!: copy_back_Next)

lemma step_Match_progress:
  "step_Match src s = Next s' \<Longrightarrow> progress src s s'"
  by (auto simp: step_Match_def halt_def index_def Let_def progress_def
      split: if_splits
      dest!: match_M1_progress match_M2_progress match_M3_progress match_M4_progress)

lemma step_MatchDone_progress:
  "state s = stateMatchDone \<Longrightarrow> step_MatchDone src s = Next s' \<Longrightarrow> progress src s s'"
  by (auto simp: step_MatchDone_def halt_def index_def Let_def progress_def rank_def
      split: if_splits option.splits dest!: copy_run_Next)

lemma dstep_progress:
  "state s \<noteq> stateEOF \<Longrightarrow> dstep src s = Next s' \<Longrightarrow> progress src s s'"
proof (cases "state s")
  case stateMatchNext
  assume "dstep src s = Next s'"
  with stateMatchNext show ?thesis by (auto simp: dstep_def progress_def rank_def)
qed (simp_all add: dstep_def step_Start_progress step_LiteralRun_progress
       step_FirstLiteralRun_progress step_Match_progress step_MatchDone_progress)

lemma progress_measure:
  "progress src s s' \<Longrightarrow>
     3 * (length src - ip s') + rank (state s') < 3 * (length src - ip s) + rank (state s)"
  unfolding progress_def
proof (elim disjE conjE)
  assume a: "ip s < ip s'" "ip s < length src"
  have "rank (state s') \<le> 2" by (simp add: rank_def split: dstate.splits)
  with a show ?thesis by arith
next
  assume "ip s' = ip s" "rank (state s') < rank (state s)"
  then show ?thesis by simp
qed

lemma dstep_measure:
  "state s \<noteq> stateEOF \<Longrightarrow> dstep src s = Next s' \<Longrightarrow>
     3 * (length src - ip s') + rank (state s') < 3 * (length src - ip s) + rank (state s)"
  by (rule progress_measure [OF dstep_progress])

termination run
proof (relation "measure (\<lambda>(src, s). 3 * (length src - ip s) + rank (state s))")
  show "wf (measure (\<lambda>(src, s). 3 * (length src - ip s) + rank (state s)))"
    by (rule wf_measure)
next
  fix src s s'
  assume "state s \<noteq> stateEOF" "dstep src s = Next s'"
  then show "((src, s'), (src, s)) \<in> measure (\<lambda>(src, s). 3 * (length src - ip s) + rank (state s))"
    using dstep_measure [of s src s'] by simp
qed

declare run.simps [simp del]


section \<open>Decoder safety\<close>

text \<open>
  What one pass of the loop may do, seen from the output cursor \<open>n\<close> and destination
  \<open>d\<close> before it: go on with a destination of the same length and the cursor inside it,
  or return \<open>n\<close> and \<open>d\<close> with an error other than \<open>ErrCorrupted\<close>; never an access out
  of range.
\<close>

definition safe_step :: "nat \<Rightarrow> byte list \<Rightarrow> step \<Rightarrow> bool" where
  "safe_step n d r =
     (case r of
        Next s' \<Rightarrow> length (dst s') = length d \<and> (n \<le> length d \<longrightarrow> op s' \<le> length (dst s'))
      | Halt m e d' \<Rightarrow> m = n \<and> d' = d \<and> e \<noteq> ErrCorrupted
      | Fault \<Rightarrow> False)"

lemma safe_step_halt: "e \<noteq> ErrCorrupted \<Longrightarrow> safe_step (op s) (dst s) (halt s e)"
  by (simp add: safe_step_def halt_def)

lemma copy_literals_None:
  "copy_literals src n s = None \<Longrightarrow> length src < ip s + n \<or> length (dst s) < op s + n"
  using copy_literals_ok [of s n src] by force

lemma copy_match_None:
  "copy_match n p s = None \<Longrightarrow> op s < p \<or> length (dst s) < op s + n"
  using copy_match_ok [of p s n] by force

lemma safe_copy_run: "safe_step (op s) (dst s) (copy_run src t nxt s)"
proof (cases "copy_literals src t s")
  case None
  then show ?thesis
    by (auto simp: copy_run_def safe_step_def halt_def dest: copy_literals_None)
next
  case (Some s')
  then show ?thesis
    using copy_literals_fields [of src t s s']
    by (auto simp: copy_run_def safe_step_def halt_def)
qed

lemma safe_copy_back: "safe_step (op s) (dst s) (copy_back mOff mLen s)"
proof (cases "copy_match mLen (op s - mOff) s")
  case None
  then show ?thesis
    by (auto simp: copy_back_def safe_step_def halt_def dest: copy_match_None)
next
  case (Some s')
  then show ?thesis
    using copy_match_fields [of mLen "op s - mOff" s s']
    by (auto simp: copy_back_def safe_step_def halt_def)
qed

lemma safe_copy_run_upd:
  "op s1 = n \<Longrightarrow> dst s1 = d \<Longrightarrow> safe_step n d (copy_run src t nxt s1)"
  using safe_copy_run [of s1 src t nxt] by simp

lemma safe_copy_back_upd:
  "op s1 = n \<Longrightarrow> dst s1 = d \<Longrightarrow> safe_step n d (copy_back mOff mLen s1)"
  using safe_copy_back [of s1 mOff mLen] by simp

lemma safe_halt_upd:
  "op s1 = n \<Longrightarrow> dst s1 = d \<Longrightarrow> e \<noteq> ErrCorrupted \<Longrightarrow> safe_step n d (halt s1 e)"
  using safe_step_halt [of e s1] by simp

lemma safe_next_state: "safe_step (op s) (dst s) (Next (s\<lparr>state := k\<rparr>))"
  by (simp add: safe_step_def)

lemma safe_step_Start: "safe_step (op s) (dst s) (step_Start src s)"
  by (simp add: step_Start_def index_def Let_def safe_copy_run_upd safe_halt_upd safe_next_state)

lemma safe_step_LiteralRun: "safe_step (op s) (dst s) (step_LiteralRun src s)"
  by (auto simp: step_LiteralRun_def index_def Let_def safe_halt_upd safe_step_def [of _ _ "Next _"]
        split: option.splits dest!: ext_len_fields intro!: safe_copy_run_upd)

lemma safe_step_FirstLiteralRun: "safe_step (op s) (dst s) (step_FirstLiteralRun src s)"
  by (auto simp: step_FirstLiteralRun_def index_def Let_def safe_halt_upd safe_step_def [of _ _ "Next _"]
        intro!: safe_copy_back_upd)

lemma safe_match_M2: "op s1 = n \<Longrightarrow> dst s1 = d \<Longrightarrow> safe_step n d (match_M2 src t s1)"
  by (auto simp: match_M2_def index_def Let_def safe_halt_upd intro!: safe_copy_back_upd)

lemma safe_match_M1: "op s1 = n \<Longrightarrow> dst s1 = d \<Longrightarrow> safe_step n d (match_M1 src t s1)"
  by (auto simp: match_M1_def index_def Let_def safe_halt_upd intro!: safe_copy_back_upd)

lemma safe_match_M3: "op s1 = n \<Longrightarrow> dst s1 = d \<Longrightarrow> safe_step n d (match_M3 src t s1)"
  by (auto simp: match_M3_def index_def Let_def safe_halt_upd
        split: option.splits dest!: ext_len_fields intro!: safe_copy_back_upd)

lemma safe_match_M4: "op s1 = n \<Longrightarrow> dst s1 = d \<Longrightarrow> safe_step n d (match_M4 src t s1)"
  by (auto simp: match_M4_def index_def Let_def safe_halt_upd safe_step_def [of _ _ "Next _"]
        split: option.splits dest!: ext_len_fields intro!: safe_copy_back_upd)

lemma safe_step_Match: "safe_step (op s) (dst s) (step_Match src s)"
  by (simp add: step_Match_def index_def Let_def safe_halt_upd
        safe_match_M1 safe_match_M2 safe_match_M3 safe_match_M4)

lemma safe_step_MatchDone: "safe_step (op s) (dst s) (step_MatchDone src s)"
  by (auto simp: step_MatchDone_def index_def Let_def safe_next_state intro!: safe_copy_run_upd)

lemma safe_dstep: "safe_step (op s) (dst s) (dstep src s)"
  by (cases "state s")
     (simp_all add: dstep_def safe_step_Start safe_step_LiteralRun safe_step_FirstLiteralRun
        safe_step_Match safe_step_MatchDone safe_next_state, simp add: safe_step_def)

lemma run_safe:
  "op s \<le> length (dst s) \<Longrightarrow>
     \<exists>n e d. run src s = Return n e d \<and> n \<le> length d \<and> length d = length (dst s)
       \<and> (e = None \<or> e = Some ErrInputOverrun \<or> e = Some ErrOutputOverrun
            \<or> e = Some ErrLookbehindOverrun)"
proof (induction src s rule: run.induct)
  case (1 src s)
  show ?case
  proof (cases "state s = stateEOF")
    case True
    with "1.prems" show ?thesis by (simp add: run.simps [of src s])
  next
    case False
    note ne = this
    have safe: "safe_step (op s) (dst s) (dstep src s)" by (rule safe_dstep)
    show ?thesis
    proof (cases "dstep src s")
      case (Next s')
      with safe "1.prems" have a: "length (dst s') = length (dst s)" "op s' \<le> length (dst s')"
        by (simp_all add: safe_step_def)
      from "1.IH" [OF ne Next a(2)] a(1) Next ne show ?thesis
        by (simp add: run.simps [of src s])
    next
      case (Halt m e d)
      with safe have "m = op s" "d = dst s" "e \<noteq> ErrCorrupted" by (simp_all add: safe_step_def)
      with Halt ne "1.prems" show ?thesis
        by (cases e) (simp_all add: run.simps [of src s])
    next
      case Fault
      with safe show ?thesis by (simp add: safe_step_def)
    qed
  qed
qed

text \<open>
  Claim C2 (decoder safety). For every input \<open>s\<close> and every destination \<open>c\<close>, the call
  \<open>Decompress s c\<close> returns (the loop \<open>run\<close> is a total function, and the result is
  never \<open>Panic\<close>, the value of an access outside \<open>src\<close> or \<open>dst\<close>); the error is \<open>nil\<close>,
  \<open>ErrInputOverrun\<close>, \<open>ErrOutputOverrun\<close> or \<open>ErrLookbehindOverrun\<close>; the destination
  keeps its length and the count returned is within it.
\<close>

theorem Decompress_safe:
  "\<exists>n e d. Decompress s c = Return n e d \<and> n \<le> length c \<and> length d = length c
     \<and> (e = None \<or> e = Some ErrInputOverrun \<or> e = Some ErrOutputOverrun
          \<or> e = Some ErrLookbehindOverrun)"
proof (cases "length s = 0")
  case True
  then show ?thesis by (simp add: Decompress_def)
next
  case False
  have "\<exists>n e d. run s \<lparr>ip = 0, op = 0, lastMOff = 0, state = stateStart, dst = c\<rparr> = Return n e d
          \<and> n \<le> length d \<and> length d = length c
          \<and> (e = None \<or> e = Some ErrInputOverrun \<or> e = Some ErrOutputOverrun
               \<or> e = Some ErrLookbehindOverrun)"
    using run_safe [of "\<lparr>ip = 0, op = 0, lastMOff = 0, state = stateStart, dst = c\<rparr>" s]
    by simp
  then obtain n e d where
    "run s \<lparr>ip = 0, op = 0, lastMOff = 0, state = stateStart, dst = c\<rparr> = Return n e d"
    "n \<le> length d" "length d = length c"
    "e = None \<or> e = Some ErrInputOverrun \<or> e = Some ErrOutputOverrun
       \<or> e = Some ErrLookbehindOverrun"
    by blast
  with False show ?thesis by (simp add: Decompress_def)
qed

section \<open>The loop heads of a call\<close>

text \<open>\<open>reaches src s s'\<close>: the loop, started in \<open>s\<close>, comes to \<open>s'\<close> at a loop head.\<close>

inductive reaches :: "byte list \<Rightarrow> dec \<Rightarrow> dec \<Rightarrow> bool" for src :: "byte list" where
  reaches_refl: "reaches src s s"
| reaches_step: "state s \<noteq> stateEOF \<Longrightarrow> dstep src s = Next s' \<Longrightarrow> reaches src s' s''
                 \<Longrightarrow> reaches src s s''"

lemma run_halt: "state s \<noteq> stateEOF \<Longrightarrow> dstep src s = Halt n e d \<Longrightarrow> run src s = Return n (Some e) d"
  by (simp add: run.simps [of src s])

lemma run_next: "state s \<noteq> stateEOF \<Longrightarrow> dstep src s = Next s' \<Longrightarrow> run src s = run src s'"
  by (simp add: run.simps [of src s])

lemma reaches_run: "reaches src s s' \<Longrightarrow> run src s = run src s'"
  by (induction rule: reaches.induct) (simp_all add: run_next)

lemma Decompress_reaches:
  "reaches src \<lparr>ip = 0, op = 0, lastMOff = 0, state = stateStart, dst = c\<rparr> s \<Longrightarrow> src \<noteq> [] \<Longrightarrow>
     Decompress src c = run src s"
  by (simp add: Decompress_def reaches_run)

section \<open>The M2 opcode\<close>

lemma nat_and_31: "(t::nat) AND 31 = t mod 32"
  using take_bit_eq_mask [of 5 t] by (simp add: mask_eq_exp_minus_1 take_bit_eq_mod)

lemma nat_and_3: "(t::nat) AND 3 = t mod 4"
  using take_bit_eq_mask [of 2 t] by (simp add: mask_eq_exp_minus_1 take_bit_eq_mod)

lemma nat_drop_bit_5: "drop_bit 5 (t::nat) = t div 32"
  by (simp add: drop_bit_eq_div)

lemma unat_byte_less: "unat (b::byte) < 256"
  using unsigned_less [of b, where ?'a = nat] by simp

lemma dstep_Match:
  "state s = stateMatch \<Longrightarrow> ip s < length src \<Longrightarrow> t = unat (src ! ip s) \<Longrightarrow>
     dstep src s =
       (if t \<ge> 64 then match_M2 src t (s\<lparr>ip := ip s + 1\<rparr>)
        else if t \<ge> 32 then match_M3 src t (s\<lparr>ip := ip s + 1\<rparr>)
        else if t \<ge> 16 then match_M4 src t (s\<lparr>ip := ip s + 1\<rparr>)
        else match_M1 src t (s\<lparr>ip := ip s + 1\<rparr>))"
  by (simp add: dstep_def step_Match_def index_def Let_def)

lemma match_M2_Next:
  "match_M2 src t s1 = Next s' \<Longrightarrow> op s' = op s1 + ((drop_bit 5 t - 1) + 2)"
  by (auto simp: match_M2_def halt_def index_def Let_def split: if_splits dest!: copy_back_Next)

lemma M2_length_bounds:
  "64 \<le> t \<Longrightarrow> t < 256 \<Longrightarrow> 3 \<le> (drop_bit 5 (t::nat) - 1) + 2 \<and> (drop_bit 5 t - 1) + 2 \<le> 8"
  by (simp add: nat_drop_bit_5) arith

text \<open>
  Claim C6, as amended. For every M2 opcode (tag \<open>t \<ge> 64\<close>) whose match is copied, the
  decoder copies exactly \<open>((t >> 5) - 1) + 2\<close> bytes, and this length lies between 3 and
  8 (not only 3 or 4).
\<close>

theorem M2_copy_length:
  assumes "state s = stateMatch" and "ip s < length src" and "t = unat (src ! ip s)"
    and "64 \<le> t" and "dstep src s = Next s'"
  shows "op s' = op s + ((drop_bit 5 t - 1) + 2)
         \<and> 3 \<le> (drop_bit 5 t - 1) + 2 \<and> (drop_bit 5 t - 1) + 2 \<le> 8"
proof -
  from assms have "match_M2 src t (s\<lparr>ip := ip s + 1\<rparr>) = Next s'"
    by (simp add: dstep_Match)
  then have "op s' = op s + ((drop_bit 5 t - 1) + 2)"
    by (auto dest: match_M2_Next)
  moreover have "t < 256" using assms(3) unat_byte_less by simp
  ultimately show ?thesis using M2_length_bounds [of t] assms(4) by simp
qed

theorem M2_copy_length_witness:
  "op \<lparr>ip = 2, op = 4, lastMOff = 1, state = stateMatchDone, dst = [0x41, 0x41, 0x41, 0x41]\<rparr>
     = op \<lparr>ip = 0, op = 1, lastMOff = 0, state = stateMatch, dst = [0x41, 0, 0, 0]\<rparr>
       + ((drop_bit 5 (64::nat) - 1) + 2)
   \<and> 3 \<le> (drop_bit 5 (64::nat) - 1) + 2 \<and> (drop_bit 5 (64::nat) - 1) + 2 \<le> 8"
proof -
  have "dstep [0x40, 0x00] \<lparr>ip = 0, op = 1, lastMOff = 0, state = stateMatch, dst = [0x41, 0, 0, 0]\<rparr>
          = Next \<lparr>ip = 2, op = 4, lastMOff = 1, state = stateMatchDone, dst = [0x41, 0x41, 0x41, 0x41]\<rparr>"
    by code_simp
  then show ?thesis
    using M2_copy_length [of "\<lparr>ip = 0, op = 1, lastMOff = 0, state = stateMatch, dst = [0x41, 0, 0, 0]\<rparr>"
        "[0x40, 0x00]" 64
        "\<lparr>ip = 2, op = 4, lastMOff = 1, state = stateMatchDone, dst = [0x41, 0x41, 0x41, 0x41]\<rparr>"]
    by simp
qed

text \<open>
  Claim C6 as stated fails: the M2 tag \<open>0x80\<close> makes the decoder copy 5 bytes. The first
  conjunct is the single step at that opcode, the second the whole call on a stream that
  holds it (one literal \<open>A\<close>, the M2 opcode with offset 1, the EOF marker).
\<close>

theorem M2_copy_length_counterexample:
  "dstep [0x80, 0x00] \<lparr>ip = 0, op = 1, lastMOff = 0, state = stateMatch, dst = [0x41, 0, 0, 0, 0, 0]\<rparr>
     = Next \<lparr>ip = 2, op = 6, lastMOff = 1, state = stateMatchDone,
              dst = [0x41, 0x41, 0x41, 0x41, 0x41, 0x41]\<rparr>
   \<and> 64 \<le> unat (0x80 :: byte) \<and> (6::nat) - 1 \<noteq> 3 \<and> (6::nat) - 1 \<noteq> 4
   \<and> Decompress [0x12, 0x41, 0x80, 0x00, 0x11, 0, 0] [0, 0, 0, 0, 0, 0]
       = Return 6 None [0x41, 0x41, 0x41, 0x41, 0x41, 0x41]"
  by code_simp

text \<open>
  Claim C5. In \<open>stateMatch\<close> at an M2 tag \<open>t \<ge> 64\<close> with \<open>(t & 0x1f) \<ge> 0x1c\<close>: if
  \<open>lastMOff\<close> is 0 the step returns \<open>ErrLookbehindOverrun\<close>, and a call of \<open>Decompress\<close>
  whose loop has come to this state returns \<open>ErrLookbehindOverrun\<close>; otherwise the match is
  copied with offset \<open>lastMOff\<close> from the state that has consumed the tag byte only, and a
  step that goes on has read one byte and left \<open>lastMOff\<close> as it was, the call continuing
  from there.
\<close>

theorem M2_offset_reuse:
  assumes "state s = stateMatch" and "ip s < length src" and "t = unat (src ! ip s)"
    and "64 \<le> t" and "0x1c \<le> t AND 0x1f"
  shows "(lastMOff s = 0 \<longrightarrow>
            dstep src s = Halt (op s) ErrLookbehindOverrun (dst s)
            \<and> (reaches src \<lparr>ip = 0, op = 0, lastMOff = 0, state = stateStart, dst = c\<rparr> s \<longrightarrow>
                 Decompress src c = Return (op s) (Some ErrLookbehindOverrun) (dst s)))
         \<and> (lastMOff s \<noteq> 0 \<longrightarrow>
            dstep src s = copy_back (lastMOff s) ((drop_bit 5 t - 1) + 2) (s\<lparr>ip := ip s + 1\<rparr>))
         \<and> (\<forall>s'. dstep src s = Next s' \<longrightarrow>
               ip s' = ip s + 1 \<and> lastMOff s' = lastMOff s
               \<and> (reaches src \<lparr>ip = 0, op = 0, lastMOff = 0, state = stateStart, dst = c\<rparr> s \<longrightarrow>
                    Decompress src c = run src s'))"
proof -
  have ne: "src \<noteq> []" using assms(2) by auto
  have d: "dstep src s = match_M2 src t (s\<lparr>ip := ip s + 1\<rparr>)"
    using assms by (simp add: dstep_Match)
  have m: "match_M2 src t (s\<lparr>ip := ip s + 1\<rparr>) =
             (if lastMOff s = 0 then Halt (op s) ErrLookbehindOverrun (dst s)
              else copy_back (lastMOff s) ((drop_bit 5 t - 1) + 2) (s\<lparr>ip := ip s + 1\<rparr>))"
    using assms(5) by (simp add: match_M2_def Let_def halt_def)
  have dm: "dstep src s =
             (if lastMOff s = 0 then Halt (op s) ErrLookbehindOverrun (dst s)
              else copy_back (lastMOff s) ((drop_bit 5 t - 1) + 2) (s\<lparr>ip := ip s + 1\<rparr>))"
    by (simp only: d m)
  have st: "state s \<noteq> stateEOF" using assms(1) by simp
  have c1: "lastMOff s = 0 \<longrightarrow> dstep src s = Halt (op s) ErrLookbehindOverrun (dst s)"
    by (simp add: dm)
  have c2: "lastMOff s = 0 \<longrightarrow>
      reaches src \<lparr>ip = 0, op = 0, lastMOff = 0, state = stateStart, dst = c\<rparr> s \<longrightarrow>
      Decompress src c = Return (op s) (Some ErrLookbehindOverrun) (dst s)"
  proof (intro impI)
    assume z: "lastMOff s = 0"
      and r: "reaches src \<lparr>ip = 0, op = 0, lastMOff = 0, state = stateStart, dst = c\<rparr> s"
    from z c1 have "run src s = Return (op s) (Some ErrLookbehindOverrun) (dst s)"
      using run_halt [OF st] by simp
    with Decompress_reaches [OF r ne] show
      "Decompress src c = Return (op s) (Some ErrLookbehindOverrun) (dst s)"
      by simp
  qed
  have c3: "lastMOff s \<noteq> 0 \<longrightarrow>
            dstep src s = copy_back (lastMOff s) ((drop_bit 5 t - 1) + 2) (s\<lparr>ip := ip s + 1\<rparr>)"
    by (simp add: dm)
  have c4: "\<forall>s'. dstep src s = Next s' \<longrightarrow> ip s' = ip s + 1 \<and> lastMOff s' = lastMOff s
               \<and> (reaches src \<lparr>ip = 0, op = 0, lastMOff = 0, state = stateStart, dst = c\<rparr> s \<longrightarrow>
                    Decompress src c = run src s')"
  proof (intro allI impI conjI)
    fix s'
    assume n: "dstep src s = Next s'"
    then have "copy_back (lastMOff s) ((drop_bit 5 t - 1) + 2) (s\<lparr>ip := ip s + 1\<rparr>) = Next s'"
      by (simp add: dm split: if_splits)
    from copy_back_Next [OF this] show "ip s' = ip s + 1" and "lastMOff s' = lastMOff s"
      by simp_all
    assume r: "reaches src \<lparr>ip = 0, op = 0, lastMOff = 0, state = stateStart, dst = c\<rparr> s"
    from Decompress_reaches [OF r ne] run_next [OF st n]
    show "Decompress src c = run src s'" by simp
  qed
  from c1 c2 c3 c4 show ?thesis by blast
qed

theorem M2_offset_reuse_witness:
  "Decompress [0x12, 0x41, 0x5c] [0, 0, 0, 0] = Return 1 (Some ErrLookbehindOverrun) [0x41, 0, 0, 0]
   \<and> Decompress [0x12, 0x41, 0x40, 0x00, 0x5c, 0x11, 0, 0] [0, 0, 0, 0, 0, 0, 0, 0]
      = run [0x12, 0x41, 0x40, 0x00, 0x5c, 0x11, 0, 0]
          \<lparr>ip = 5, op = 7, lastMOff = 1, state = stateMatchDone,
            dst = [0x41, 0x41, 0x41, 0x41, 0x41, 0x41, 0x41, 0]\<rparr>"
proof -
  let ?pa = "[0x12, 0x41, 0x5c] :: byte list"
  let ?saa = "\<lparr>ip = 0, op = 0, lastMOff = 0, state = stateStart, dst = [0, 0, 0, 0 :: byte]\<rparr>"
  let ?sab = "\<lparr>ip = 2, op = 1, lastMOff = 0, state = stateMatchNext, dst = [0x41, 0, 0, 0 :: byte]\<rparr>"
  let ?sac = "\<lparr>ip = 2, op = 1, lastMOff = 0, state = stateMatch, dst = [0x41, 0, 0, 0 :: byte]\<rparr>"
  have a1: "dstep ?pa ?saa = Next ?sab" and a2: "dstep ?pa ?sab = Next ?sac"
    by code_simp+
  have ra: "reaches ?pa ?saa ?sac"
    by (rule reaches_step [OF _ a1 reaches_step [OF _ a2 reaches_refl]]) simp_all
  let ?pb = "[0x12, 0x41, 0x40, 0x00, 0x5c, 0x11, 0, 0] :: byte list"
  let ?sba = "\<lparr>ip = 0, op = 0, lastMOff = 0, state = stateStart, dst = [0, 0, 0, 0, 0, 0, 0, 0 :: byte]\<rparr>"
  let ?sbb = "\<lparr>ip = 2, op = 1, lastMOff = 0, state = stateMatchNext, dst = [0x41, 0, 0, 0, 0, 0, 0, 0 :: byte]\<rparr>"
  let ?sbc = "\<lparr>ip = 2, op = 1, lastMOff = 0, state = stateMatch, dst = [0x41, 0, 0, 0, 0, 0, 0, 0 :: byte]\<rparr>"
  let ?sbd = "\<lparr>ip = 4, op = 4, lastMOff = 1, state = stateMatchDone, dst = [0x41, 0x41, 0x41, 0x41, 0, 0, 0, 0 :: byte]\<rparr>"
  let ?sbe = "\<lparr>ip = 4, op = 4, lastMOff = 1, state = stateLiteralRun, dst = [0x41, 0x41, 0x41, 0x41, 0, 0, 0, 0 :: byte]\<rparr>"
  let ?sbf = "\<lparr>ip = 4, op = 4, lastMOff = 1, state = stateMatch, dst = [0x41, 0x41, 0x41, 0x41, 0, 0, 0, 0 :: byte]\<rparr>"
  let ?sbg = "\<lparr>ip = 5, op = 7, lastMOff = 1, state = stateMatchDone, dst = [0x41, 0x41, 0x41, 0x41, 0x41, 0x41, 0x41, 0 :: byte]\<rparr>"
  have b1: "dstep ?pb ?sba = Next ?sbb" and b2: "dstep ?pb ?sbb = Next ?sbc"
    and b3: "dstep ?pb ?sbc = Next ?sbd" and b4: "dstep ?pb ?sbd = Next ?sbe"
    and b5: "dstep ?pb ?sbe = Next ?sbf"
    by code_simp+
  have rb: "reaches ?pb ?sba ?sbf"
    by (rule reaches_step [OF _ b1 reaches_step [OF _ b2 reaches_step [OF _ b3
          reaches_step [OF _ b4 reaches_step [OF _ b5 reaches_refl]]]]]) simp_all
  have nb: "dstep ?pb ?sbf = Next ?sbg" by code_simp
  have h: "(0x1c::nat) \<le> unat (0x5c :: byte) AND 0x1f" by simp
  from ra h M2_offset_reuse [of ?sac ?pa "unat (0x5c :: byte)" "[0, 0, 0, 0]"]
  have 1: "Decompress ?pa [0, 0, 0, 0] = Return 1 (Some ErrLookbehindOverrun) [0x41, 0, 0, 0]"
    by simp
  from rb nb h M2_offset_reuse [of ?sbf ?pb "unat (0x5c :: byte)" "[0, 0, 0, 0, 0, 0, 0, 0]"]
  have 2: "Decompress ?pb [0, 0, 0, 0, 0, 0, 0, 0] = run ?pb ?sbg"
    by simp
  from 1 2 show ?thesis by simp
qed


section \<open>Trailing literals after an M2 with offset reuse\<close>

lemma dstep_MatchDone:
  "state s = stateMatchDone \<Longrightarrow> 0 < ip s \<Longrightarrow> ip s \<le> length src \<Longrightarrow>
     dstep src s =
       (if unat (src ! (ip s - 1)) AND 3 = 0 then Next (s\<lparr>state := stateLiteralRun\<rparr>)
        else copy_run src (unat (src ! (ip s - 1)) AND 3) stateMatchNext s)"
proof -
  assume a: "state s = stateMatchDone" "0 < ip s" "ip s \<le> length src"
  then have "ip s - 1 < length src" by arith
  with a show ?thesis
    by (simp add: dstep_def step_MatchDone_def index_def Let_def)
qed

text \<open>
  Claim C7, as amended. After an M2 opcode with offset reuse and tag \<open>t\<close>, the last byte
  consumed is the tag itself, so \<open>stateMatchDone\<close> takes the trailing-literal count
  \<open>t & 3\<close> from the tag: it copies no literal when \<open>t & 3 = 0\<close>, and otherwise runs the
  checked copy of \<open>t & 3\<close> literal bytes, which moves both cursors by \<open>t & 3\<close>.
\<close>

theorem reuse_M2_trailing_literals:
  assumes "state s = stateMatch" and "ip s < length src" and "t = unat (src ! ip s)"
    and "64 \<le> t" and "0x1c \<le> t AND 0x1f" and "dstep src s = Next s1"
  shows "state s1 = stateMatchDone \<and> ip s1 = ip s + 1
         \<and> dstep src s1 =
             (if t AND 3 = 0 then Next (s1\<lparr>state := stateLiteralRun\<rparr>)
              else copy_run src (t AND 3) stateMatchNext s1)
         \<and> (\<forall>s2. dstep src s1 = Next s2 \<longrightarrow>
               op s2 = op s1 + (t AND 3) \<and> ip s2 = ip s1 + (t AND 3))"
proof -
  from assms have "match_M2 src t (s\<lparr>ip := ip s + 1\<rparr>) = Next s1"
    by (simp add: dstep_Match)
  with assms(5) have "copy_back (lastMOff s) ((drop_bit 5 t - 1) + 2) (s\<lparr>ip := ip s + 1\<rparr>) = Next s1"
    by (simp add: match_M2_def Let_def halt_def split: if_splits)
  from copy_back_Next [OF this] have s1: "state s1 = stateMatchDone" "ip s1 = ip s + 1"
    by simp_all
  with assms(2,3) have d: "dstep src s1 =
      (if t AND 3 = 0 then Next (s1\<lparr>state := stateLiteralRun\<rparr>)
       else copy_run src (t AND 3) stateMatchNext s1)"
    by (simp add: dstep_MatchDone)
  have "\<forall>s2. dstep src s1 = Next s2 \<longrightarrow> op s2 = op s1 + (t AND 3) \<and> ip s2 = ip s1 + (t AND 3)"
  proof (intro allI impI)
    fix s2
    assume n: "dstep src s1 = Next s2"
    show "op s2 = op s1 + (t AND 3) \<and> ip s2 = ip s1 + (t AND 3)"
    proof (cases "t AND 3 = 0")
      case True
      with n d show ?thesis by auto
    next
      case False
      with n d have "copy_run src (t AND 3) stateMatchNext s1 = Next s2" by simp
      from copy_run_Next [OF this] show ?thesis by simp
    qed
  qed
  with s1 d show ?thesis by blast
qed

theorem reuse_M2_trailing_literals_witness:
  "dstep [0x5e, 0x42, 0x43] \<lparr>ip = 1, op = 4, lastMOff = 1, state = stateMatchDone, dst = [0x41, 0x41, 0x41, 0x41, 0, 0]\<rparr>
     = copy_run [0x5e, 0x42, 0x43] (unat (0x5e :: byte) AND 3) stateMatchNext
         \<lparr>ip = 1, op = 4, lastMOff = 1, state = stateMatchDone, dst = [0x41, 0x41, 0x41, 0x41, 0, 0]\<rparr>"
proof -
  have h: "(0x1c::nat) \<le> unat (0x5e :: byte) AND 0x1f" "unat (0x5e :: byte) AND 3 \<noteq> 0"
    by simp_all
  have n: "dstep [0x5e, 0x42, 0x43] \<lparr>ip = 0, op = 1, lastMOff = 1, state = stateMatch, dst = [0x41, 0, 0, 0, 0, 0]\<rparr>
      = Next \<lparr>ip = 1, op = 4, lastMOff = 1, state = stateMatchDone, dst = [0x41, 0x41, 0x41, 0x41, 0, 0]\<rparr>"
    by code_simp
  show ?thesis
    using h n reuse_M2_trailing_literals
      [of "\<lparr>ip = 0, op = 1, lastMOff = 1, state = stateMatch, dst = [0x41, 0, 0, 0, 0, 0]\<rparr>"
        "[0x5e, 0x42, 0x43]" "unat (0x5e :: byte)"
        "\<lparr>ip = 1, op = 4, lastMOff = 1, state = stateMatchDone, dst = [0x41, 0x41, 0x41, 0x41, 0, 0]\<rparr>"]
    by simp
qed

text \<open>
  Claim C7 as stated fails: after the reuse opcode \<open>0x5d\<close> (low five bits \<open>0x1d\<close>) the
  \<open>stateMatchDone\<close> step copies one trailing literal, the byte \<open>0x42\<close> that follows the
  tag. First the reuse step, then the \<open>stateMatchDone\<close> step, then a whole call on a
  stream holding the opcode.
\<close>

theorem reuse_M2_trailing_literals_counterexample:
  "dstep [0x5d, 0x42] \<lparr>ip = 0, op = 1, lastMOff = 1, state = stateMatch, dst = [0x41, 0, 0, 0, 0]\<rparr>
     = Next \<lparr>ip = 1, op = 4, lastMOff = 1, state = stateMatchDone, dst = [0x41, 0x41, 0x41, 0x41, 0]\<rparr>
   \<and> dstep [0x5d, 0x42] \<lparr>ip = 1, op = 4, lastMOff = 1, state = stateMatchDone, dst = [0x41, 0x41, 0x41, 0x41, 0]\<rparr>
     = Next \<lparr>ip = 2, op = 5, lastMOff = 1, state = stateMatchNext, dst = [0x41, 0x41, 0x41, 0x41, 0x42]\<rparr>
   \<and> Decompress [0x12, 0x41, 0x40, 0x00, 0x5d, 0x42, 0x11, 0, 0] [0, 0, 0, 0, 0, 0, 0, 0]
     = Return 8 None [0x41, 0x41, 0x41, 0x41, 0x41, 0x41, 0x41, 0x42]"
  by code_simp

section \<open>Success only through the EOF marker\<close>

text \<open>
  The step that consumes the EOF marker: in \<open>stateMatch\<close>, at a tag \<open>16 \<le> t < 32\<close> (an M4
  opcode), with the offset decoded from the tag's bit 3 and the two offset bytes, the last
  two bytes consumed, equal to zero; it leaves the output as it is.
\<close>

definition eof_marker_step :: "byte list \<Rightarrow> dec \<Rightarrow> dec \<Rightarrow> bool" where
  "eof_marker_step src s s' \<longleftrightarrow>
     state s = stateMatch \<and> ip s < length src
     \<and> 16 \<le> unat (src ! ip s) \<and> unat (src ! ip s) < 32
     \<and> ip s + 3 \<le> ip s' \<and> ip s' \<le> length src
     \<and> push_bit 11 (unat (src ! ip s) AND 8)
         + (push_bit 6 (unat (src ! (ip s' - 2))) + unat (drop_bit 2 (src ! (ip s' - 1)))) = 0
     \<and> dstep src s = Next s' \<and> state s' = stateEOF \<and> op s' = op s \<and> dst s' = dst s"

lemma match_M4_EOF:
  assumes "match_M4 src t s1 = Next s'" and "state s' = stateEOF"
  shows "ip s1 + 2 \<le> ip s' \<and> ip s' \<le> length src
         \<and> push_bit 11 (t AND 8)
             + (push_bit 6 (unat (src ! (ip s' - 2))) + unat (drop_bit 2 (src ! (ip s' - 1)))) = 0
         \<and> op s' = op s1 \<and> dst s' = dst s1"
proof -
  obtain s2 mLen where
    e: "(if t AND 7 = 0 then ext_len src 7 (t AND 7) s1 else Some (s1, t AND 7)) = Some (s2, mLen)"
    using assms(1) by (auto simp: match_M4_def halt_def split: option.splits)
  then have f: "ip s1 \<le> ip s2" "op s2 = op s1" "dst s2 = dst s1"
    by (auto split: if_splits dest!: ext_len_fields)
  from assms(1) e have l: "ip s2 + 2 \<le> length src"
    by (auto simp: match_M4_def halt_def split: if_splits)
  with assms e have
    "push_bit 11 (t AND 8) + (push_bit 6 (unat (src ! ip s2)) + unat (drop_bit 2 (src ! (ip s2 + 1)))) = 0
     \<and> s' = s2\<lparr>ip := ip s2 + 2, state := stateEOF\<rparr>"
    by (auto simp: match_M4_def halt_def index_def Let_def split: if_splits dest!: copy_back_Next)
  with f l show ?thesis by auto
qed

lemma copy_run_not_EOF: "copy_run src t nxt s = Next s' \<Longrightarrow> nxt \<noteq> stateEOF \<Longrightarrow> state s' \<noteq> stateEOF"
  by (auto dest!: copy_run_Next)

lemma copy_back_not_EOF: "copy_back mOff mLen s = Next s' \<Longrightarrow> state s' \<noteq> stateEOF"
  by (auto dest!: copy_back_Next)

lemma step_Start_not_EOF: "step_Start src s = Next s' \<Longrightarrow> state s' \<noteq> stateEOF"
  by (auto simp: step_Start_def halt_def index_def Let_def split: if_splits
        dest!: copy_run_Next)

lemma step_LiteralRun_not_EOF: "step_LiteralRun src s = Next s' \<Longrightarrow> state s' \<noteq> stateEOF"
  by (auto simp: step_LiteralRun_def halt_def index_def Let_def split: if_splits option.splits
        dest!: copy_run_Next)

lemma step_FirstLiteralRun_not_EOF: "step_FirstLiteralRun src s = Next s' \<Longrightarrow> state s' \<noteq> stateEOF"
  by (auto simp: step_FirstLiteralRun_def halt_def index_def Let_def split: if_splits
        dest!: copy_back_Next)

lemma step_MatchDone_not_EOF: "step_MatchDone src s = Next s' \<Longrightarrow> state s' \<noteq> stateEOF"
  by (auto simp: step_MatchDone_def halt_def index_def Let_def split: if_splits
        dest!: copy_run_Next)

lemma match_M1_not_EOF: "match_M1 src t s1 = Next s' \<Longrightarrow> state s' \<noteq> stateEOF"
  by (auto simp: match_M1_def halt_def index_def Let_def split: if_splits dest!: copy_back_Next)

lemma match_M2_not_EOF: "match_M2 src t s1 = Next s' \<Longrightarrow> state s' \<noteq> stateEOF"
  by (auto simp: match_M2_def halt_def index_def Let_def split: if_splits dest!: copy_back_Next)

lemma match_M3_not_EOF: "match_M3 src t s1 = Next s' \<Longrightarrow> state s' \<noteq> stateEOF"
  by (auto simp: match_M3_def halt_def index_def Let_def split: if_splits option.splits
        dest!: copy_back_Next)

lemma only_M4_reaches_EOF:
  assumes "state s \<noteq> stateEOF" and "dstep src s = Next s'" and "state s' = stateEOF"
  shows "eof_marker_step src s s'"
proof (cases "state s")
  case stateMatch
  from assms(2) stateMatch have lt: "ip s < length src"
    by (auto simp: dstep_def step_Match_def halt_def split: if_splits)
  define t where "t = unat (src ! ip s)"
  note d = dstep_Match [OF stateMatch lt t_def]
  have m4: "16 \<le> t \<and> t < 32 \<and> match_M4 src t (s\<lparr>ip := ip s + 1\<rparr>) = Next s'"
    using assms(2,3) d
    by (auto split: if_splits dest: match_M1_not_EOF match_M2_not_EOF match_M3_not_EOF)
  from match_M4_EOF [of src t "s\<lparr>ip := ip s + 1\<rparr>" s'] m4 assms(3)
  show ?thesis
    using stateMatch lt assms(2,3) m4 by (simp add: eof_marker_step_def t_def)
qed (use assms in \<open>auto simp: dstep_def dest: step_Start_not_EOF step_LiteralRun_not_EOF
       step_FirstLiteralRun_not_EOF step_MatchDone_not_EOF\<close>)

lemma run_success_EOF:
  "run src s = Return n None d \<Longrightarrow> state s \<noteq> stateEOF \<Longrightarrow>
     \<exists>s1 s2. reaches src s s1 \<and> eof_marker_step src s1 s2 \<and> n = op s2 \<and> d = dst s2"
proof (induction src s rule: run.induct)
  case (1 src s)
  from "1.prems" obtain s' where n: "dstep src s = Next s'" and r: "run src s' = Return n None d"
    by (auto simp: run.simps [of src s] split: step.splits)
  show ?case
  proof (cases "state s' = stateEOF")
    case True
    with r have "n = op s'" "d = dst s'" by (simp_all add: run.simps [of src s'])
    moreover have "eof_marker_step src s s'"
      using only_M4_reaches_EOF [OF "1.prems"(2) n True] .
    ultimately show ?thesis using reaches_refl by blast
  next
    case False
    from "1.IH" [OF "1.prems"(2) n r False] obtain s1 s2 where
      "reaches src s' s1" "eof_marker_step src s1 s2" "n = op s2" "d = dst s2" by blast
    with reaches_step [OF "1.prems"(2) n] show ?thesis by blast
  qed
qed

lemma run_at_end_consuming:
  assumes "length src \<le> ip s"
    and "state s = stateStart \<or> state s = stateLiteralRun \<or> state s = stateFirstLiteralRun
         \<or> state s = stateMatch"
  shows "run src s = Return (op s) (Some ErrInputOverrun) (dst s)"
proof -
  have "dstep src s = Halt (op s) ErrInputOverrun (dst s)"
    using assms
    by (auto simp: dstep_def step_Start_def step_LiteralRun_def step_FirstLiteralRun_def
        step_Match_def halt_def)
  with assms(2) show ?thesis by (auto intro: run_halt)
qed

lemma run_at_end_error:
  assumes "state s \<noteq> stateEOF" and "length src \<le> ip s"
  shows "run src s = Return (op s)
          (Some (if state s = stateMatchDone \<and> 0 < ip s \<and> ip s = length src
                    \<and> unat (src ! (ip s - 1)) AND 3 \<noteq> 0
                    \<and> length (dst s) < op s + (unat (src ! (ip s - 1)) AND 3)
                 then ErrOutputOverrun else ErrInputOverrun)) (dst s)"
proof (cases "state s")
  case stateMatchNext
  then have "run src s = run src (s\<lparr>state := stateMatch\<rparr>)"
    by (simp add: run_next dstep_def)
  also have "\<dots> = Return (op s) (Some ErrInputOverrun) (dst s)"
    using run_at_end_consuming [of src "s\<lparr>state := stateMatch\<rparr>"] assms(2) by simp
  finally show ?thesis using stateMatchNext by simp
next
  case stateMatchDone
  have lit: "run src (s\<lparr>state := stateLiteralRun\<rparr>) = Return (op s) (Some ErrInputOverrun) (dst s)"
    using run_at_end_consuming [of src "s\<lparr>state := stateLiteralRun\<rparr>"] assms(2) by simp
  show ?thesis
  proof (cases "ip s = 0 \<or> length src < ip s")
    case True
    with stateMatchDone have "dstep src s = Next (s\<lparr>state := stateLiteralRun\<rparr>)"
      by (auto simp: dstep_def step_MatchDone_def)
    with stateMatchDone lit have "run src s = Return (op s) (Some ErrInputOverrun) (dst s)"
      by (simp add: run_next)
    with True show ?thesis by auto
  next
    case False
    with assms(2) have ip: "0 < ip s" "ip s = length src" by simp_all
    define t where "t = unat (src ! (ip s - 1)) AND 3"
    have d: "dstep src s =
        (if t = 0 then Next (s\<lparr>state := stateLiteralRun\<rparr>) else copy_run src t stateMatchNext s)"
      using stateMatchDone ip by (simp add: dstep_MatchDone t_def)
    show ?thesis
    proof (cases "t = 0")
      case True
      with d stateMatchDone lit have "run src s = Return (op s) (Some ErrInputOverrun) (dst s)"
        by (simp add: run_next)
      with True show ?thesis by (simp add: t_def)
    next
      case False
      with d ip have "dstep src s =
          (if length (dst s) < op s + t then Halt (op s) ErrOutputOverrun (dst s)
           else Halt (op s) ErrInputOverrun (dst s))"
        by (simp add: copy_run_def halt_def)
      then have "run src s =
          (if length (dst s) < op s + t then Return (op s) (Some ErrOutputOverrun) (dst s)
           else Return (op s) (Some ErrInputOverrun) (dst s))"
        using stateMatchDone by (simp add: run.simps [of src s])
      with stateMatchDone ip False show ?thesis
        by (cases "length (dst s) < op s + t") (simp_all add: t_def)
    qed
  qed
qed (use assms run_at_end_consuming [of src s] in auto)

text \<open>
  Claim C10, as amended. For a non-empty input, \<open>Decompress\<close> returns success only when
  the loop has come to a state \<open>s1\<close> whose step consumes an M4 opcode with raw offset zero
  and moves to \<open>stateEOF\<close>. A loop head \<open>s\<close> in any other state with the input used up
  ends the run, and the call whose loop has come to \<open>s\<close>, in an error, never in success.
  The error is \<open>ErrOutputOverrun\<close> exactly when \<open>s\<close> is in \<open>stateMatchDone\<close> with a
  non-zero trailing-literal count that does not fit the output (the output check comes
  first), and \<open>ErrInputOverrun\<close> in every other case.
\<close>

theorem success_only_by_EOF_marker:
  "(length src \<noteq> 0 \<and> Decompress src c = Return n None d \<longrightarrow>
      (\<exists>s1 s2. reaches src \<lparr>ip = 0, op = 0, lastMOff = 0, state = stateStart, dst = c\<rparr> s1
         \<and> eof_marker_step src s1 s2 \<and> n = op s2 \<and> d = dst s2))
   \<and> (state s \<noteq> stateEOF \<and> length src \<le> ip s \<longrightarrow>
        run src s = Return (op s)
          (Some (if state s = stateMatchDone \<and> 0 < ip s \<and> ip s = length src
                    \<and> unat (src ! (ip s - 1)) AND 3 \<noteq> 0
                    \<and> length (dst s) < op s + (unat (src ! (ip s - 1)) AND 3)
                 then ErrOutputOverrun else ErrInputOverrun)) (dst s)
        \<and> (length src \<noteq> 0
             \<and> reaches src \<lparr>ip = 0, op = 0, lastMOff = 0, state = stateStart, dst = c\<rparr> s \<longrightarrow>
           Decompress src c = Return (op s)
             (Some (if state s = stateMatchDone \<and> 0 < ip s \<and> ip s = length src
                       \<and> unat (src ! (ip s - 1)) AND 3 \<noteq> 0
                       \<and> length (dst s) < op s + (unat (src ! (ip s - 1)) AND 3)
                    then ErrOutputOverrun else ErrInputOverrun)) (dst s)))"
proof (intro conjI impI)
  assume "length src \<noteq> 0 \<and> Decompress src c = Return n None d"
  then have "src \<noteq> []" and "Decompress src c = Return n None d"
    by simp_all
  then have "run src \<lparr>ip = 0, op = 0, lastMOff = 0, state = stateStart, dst = c\<rparr> = Return n None d"
    by (simp add: Decompress_def)
  from run_success_EOF [OF this]
  show "\<exists>s1 s2. reaches src \<lparr>ip = 0, op = 0, lastMOff = 0, state = stateStart, dst = c\<rparr> s1
         \<and> eof_marker_step src s1 s2 \<and> n = op s2 \<and> d = dst s2"
    by simp
next
  assume a: "state s \<noteq> stateEOF \<and> length src \<le> ip s"
  then show r: "run src s = Return (op s)
          (Some (if state s = stateMatchDone \<and> 0 < ip s \<and> ip s = length src
                    \<and> unat (src ! (ip s - 1)) AND 3 \<noteq> 0
                    \<and> length (dst s) < op s + (unat (src ! (ip s - 1)) AND 3)
                 then ErrOutputOverrun else ErrInputOverrun)) (dst s)"
    using run_at_end_error [of s src] by simp
  assume "length src \<noteq> 0
     \<and> reaches src \<lparr>ip = 0, op = 0, lastMOff = 0, state = stateStart, dst = c\<rparr> s"
  then have "Decompress src c = run src s"
    by (simp add: Decompress_reaches)
  with r show "Decompress src c = Return (op s)
             (Some (if state s = stateMatchDone \<and> 0 < ip s \<and> ip s = length src
                       \<and> unat (src ! (ip s - 1)) AND 3 \<noteq> 0
                       \<and> length (dst s) < op s + (unat (src ! (ip s - 1)) AND 3)
                    then ErrOutputOverrun else ErrInputOverrun)) (dst s)"
    by simp
qed

theorem success_only_by_EOF_marker_witness:
  "(\<exists>s1 s2. reaches [0x11, 0, 0] \<lparr>ip = 0, op = 0, lastMOff = 0, state = stateStart, dst = []\<rparr> s1
      \<and> eof_marker_step [0x11, 0, 0] s1 s2 \<and> 0 = op s2 \<and> [] = dst s2)
   \<and> Decompress [0x12, 0x41] [0] = Return 1 (Some ErrInputOverrun) [0x41]
   \<and> Decompress [0x12, 0x41, 0x40, 0x02] [0, 0, 0, 0]
       = Return 4 (Some ErrOutputOverrun) [0x41, 0x41, 0x41, 0x41]"
proof -
  have e: "Decompress [0x11, 0, 0] [] = Return 0 None []" by code_simp
  let ?pa = "[0x12, 0x41] :: byte list"
  let ?saa = "\<lparr>ip = 0, op = 0, lastMOff = 0, state = stateStart, dst = [0 :: byte]\<rparr>"
  let ?sab = "\<lparr>ip = 2, op = 1, lastMOff = 0, state = stateMatchNext, dst = [0x41 :: byte]\<rparr>"
  have a1: "dstep ?pa ?saa = Next ?sab"
    by code_simp
  have ra: "reaches ?pa ?saa ?sab"
    by (rule reaches_step [OF _ a1 reaches_refl]) simp
  let ?pb = "[0x12, 0x41, 0x40, 0x02] :: byte list"
  let ?sba = "\<lparr>ip = 0, op = 0, lastMOff = 0, state = stateStart, dst = [0, 0, 0, 0 :: byte]\<rparr>"
  let ?sbb = "\<lparr>ip = 2, op = 1, lastMOff = 0, state = stateMatchNext, dst = [0x41, 0, 0, 0 :: byte]\<rparr>"
  let ?sbc = "\<lparr>ip = 2, op = 1, lastMOff = 0, state = stateMatch, dst = [0x41, 0, 0, 0 :: byte]\<rparr>"
  let ?sbd = "\<lparr>ip = 4, op = 4, lastMOff = 1, state = stateMatchDone, dst = [0x41, 0x41, 0x41, 0x41 :: byte]\<rparr>"
  have b1: "dstep ?pb ?sba = Next ?sbb" and b2: "dstep ?pb ?sbb = Next ?sbc"
    and b3: "dstep ?pb ?sbc = Next ?sbd"
    by code_simp+
  have rb: "reaches ?pb ?sba ?sbd"
    by (rule reaches_step [OF _ b1 reaches_step [OF _ b2 reaches_step [OF _ b3 reaches_refl]]])
      simp_all
  from e success_only_by_EOF_marker [of "[0x11, 0, 0]" "[]" 0 "[]"
        "\<lparr>ip = 3, op = 0, lastMOff = 0, state = stateMatch, dst = []\<rparr>"]
  have 1: "\<exists>s1 s2. reaches [0x11, 0, 0] \<lparr>ip = 0, op = 0, lastMOff = 0, state = stateStart, dst = []\<rparr> s1
      \<and> eof_marker_step [0x11, 0, 0] s1 s2 \<and> 0 = op s2 \<and> [] = dst s2"
    by simp
  from ra success_only_by_EOF_marker [of ?pa "[0]" 0 "[]" ?sab]
  have 2: "Decompress ?pa [0] = Return 1 (Some ErrInputOverrun) [0x41]"
    by simp
  from rb success_only_by_EOF_marker [of ?pb "[0, 0, 0, 0]" 0 "[]" ?sbd]
  have 3: "Decompress ?pb [0, 0, 0, 0] = Return 4 (Some ErrOutputOverrun) [0x41, 0x41, 0x41, 0x41]"
    by simp
  from 1 2 3 show ?thesis by blast
qed

text \<open>
  Claim C10 as stated fails in its second half: on the four-byte input below with a
  four-byte destination the decoder has consumed the whole input when it stands in
  \<open>stateMatchDone\<close>, and the call returns \<open>ErrOutputOverrun\<close>, not \<open>ErrInputOverrun\<close>.
\<close>

theorem success_only_by_EOF_marker_counterexample:
  "Decompress [0x12, 0x41, 0x40, 0x01] [0, 0, 0, 0]
     = Return 4 (Some ErrOutputOverrun) [0x41, 0x41, 0x41, 0x41]
   \<and> run [0x12, 0x41, 0x40, 0x01]
        \<lparr>ip = 0, op = 0, lastMOff = 0, state = stateStart, dst = [0, 0, 0, 0]\<rparr>
     = run [0x12, 0x41, 0x40, 0x01]
        \<lparr>ip = 4, op = 4, lastMOff = 1, state = stateMatchDone, dst = [0x41, 0x41, 0x41, 0x41]\<rparr>
   \<and> length [0x12 :: byte, 0x41, 0x40, 0x01]
       \<le> ip \<lparr>ip = 4, op = 4, lastMOff = 1, state = stateMatchDone, dst = [0x41, 0x41, 0x41, 0x41]\<rparr>
   \<and> run [0x12, 0x41, 0x40, 0x01]
        \<lparr>ip = 4, op = 4, lastMOff = 1, state = stateMatchDone, dst = [0x41, 0x41, 0x41, 0x41]\<rparr>
     = Return 4 (Some ErrOutputOverrun) [0x41, 0x41, 0x41, 0x41]"
  by code_simp

section \<open>The encoder\<close>

definition hashBits :: nat where "hashBits = 14"
definition hashMask :: "32 word" where "hashMask = 0x3fff"
definition maxOffset :: int where "maxOffset = 0xbfff"
definition minMatch :: nat where "minMatch = 3"

text \<open>
  The closure \<open>hash\<close> of \<open>Compress\<close>: 0 when fewer than four bytes are left, else the top
  14 bits of the 32-bit product of the little-endian word at \<open>p\<close> with \<open>0x1e35a7bd\<close>.
\<close>

definition hash :: "byte list \<Rightarrow> nat \<Rightarrow> nat" where
  "hash src p =
     (if p + 4 > length src then 0
      else let v = (ucast (src ! p) :: 32 word) OR push_bit 8 (ucast (src ! (p + 1)))
                     OR push_bit 16 (ucast (src ! (p + 2))) OR push_bit 24 (ucast (src ! (p + 3)))
           in unat (drop_bit (32 - hashBits) (v * 0x1e35a7bd) AND hashMask))"

text \<open>A checked write \<open>d[i] = v\<close>, continuing with the slice written.\<close>

definition store :: "byte list \<Rightarrow> nat \<Rightarrow> byte \<Rightarrow> (byte list \<Rightarrow> result) \<Rightarrow> result" where
  "store d i v k = (if i < length d then k (d[i := v]) else Panic)"

text \<open>
  The end of \<open>emitLiterals\<close>: the last check, \<open>copy(dst[op:], lit)\<close> and the return. After
  the check the destination has room for all of \<open>lit\<close>.
\<close>

definition copy_lit :: "byte list \<Rightarrow> nat \<Rightarrow> byte list \<Rightarrow> result" where
  "copy_lit lit n d =
     (if n + length lit > length d then Return n (Some ErrOutputOverrun) d
      else Return (n + length lit) None (take n d @ lit @ drop (n + length lit) d))"

text \<open>
  The successor bytes of a long literal run, with the check before each write:
  \<open>for remaining > 255 { if op >= outLen { return }; dst[op] = 0; op++; remaining -= 255 }\<close>,
  then the same check and \<open>dst[op] = byte(remaining); op++\<close>. \<open>Inl\<close> is the early
  return, \<open>Inr (op, d)\<close> goes on to the copy.
\<close>

function lit_successors :: "nat \<Rightarrow> nat \<Rightarrow> byte list \<Rightarrow> result + nat \<times> byte list" where
  "lit_successors remaining n d =
     (if remaining > 255 then
        (if n \<ge> length d then Inl (Return n (Some ErrOutputOverrun) d)
         else lit_successors (remaining - 255) (n + 1) (d[n := 0]))
      else if n \<ge> length d then Inl (Return n (Some ErrOutputOverrun) d)
      else Inr (n + 1, d[n := of_nat remaining]))"
  by pat_completeness auto
termination
  by (relation "measure (\<lambda>(remaining, n, d). remaining)") auto

declare lit_successors.simps [simp del]

definition emitLiterals :: "byte list \<Rightarrow> byte list \<Rightarrow> bool \<Rightarrow> result" where
  "emitLiterals lit d isFirst =
     (let litLen = length lit; outLen = length d in
      if litLen = 0 then Return 0 None d
      else if isFirst \<and> litLen \<le> 238 then
        (if litLen \<le> 3 then
           (if 1 + litLen > outLen then Return 0 (Some ErrOutputOverrun) d
            else store d 0 (of_nat (litLen + 17)) (copy_lit lit 1))
         else if litLen \<le> 18 then
           (if 1 + litLen > outLen then Return 0 (Some ErrOutputOverrun) d
            else store d 0 (of_nat (litLen - 3)) (copy_lit lit 1))
         else if 2 + litLen > outLen then Return 0 (Some ErrOutputOverrun) d
         else let remaining = litLen - 18 in
           if remaining \<le> 255 then
             store d 0 0 (\<lambda>d1. store d1 1 (of_nat remaining) (copy_lit lit 2))
           else
             store d 0 0 (\<lambda>d1.
               case lit_successors remaining 1 d1 of
                 Inl r \<Rightarrow> r
               | Inr (n, d2) \<Rightarrow> copy_lit lit n d2))
      else if litLen \<le> 18 then
        (if 1 + litLen > outLen then Return 0 (Some ErrOutputOverrun) d
         else store d 0 (word_of_int (int litLen - 3)) (copy_lit lit 1))
      else
        store d 0 0 (\<lambda>d1.
          case lit_successors (litLen - 18) 1 d1 of
            Inl r \<Rightarrow> r
          | Inr (n, d2) \<Rightarrow> copy_lit lit n d2))"

text \<open>
  The successor bytes of a long match, written without a check:
  \<open>for remaining > 255 { dst[op] = 0; op++; remaining -= 255 }; dst[op] = byte(remaining); op++\<close>.
  \<open>None\<close> is a write out of range.
\<close>

function match_successors :: "int \<Rightarrow> nat \<Rightarrow> byte list \<Rightarrow> (nat \<times> byte list) option" where
  "match_successors remaining n d =
     (if remaining > 255 then
        (if n < length d then match_successors (remaining - 255) (n + 1) (d[n := 0]) else None)
      else if n < length d then Some (n + 1, d[n := word_of_int remaining])
      else None)"
  by pat_completeness auto
termination
  by (relation "measure (\<lambda>(remaining, n, d). nat remaining)") auto

declare match_successors.simps [simp del]

text \<open>The two offset bytes that close M3 and M4, and the return.\<close>

definition offset_bytes :: "int \<Rightarrow> int \<Rightarrow> nat \<Rightarrow> byte list \<Rightarrow> result" where
  "offset_bytes offByte0 offByte1 n d =
     store d n (word_of_int offByte0) (\<lambda>d1.
       store d1 (n + 1) (word_of_int offByte1) (\<lambda>d2. Return (n + 2) None d2))"

definition emitMatch :: "byte list \<Rightarrow> int \<Rightarrow> int \<Rightarrow> result" where
  "emitMatch d offset len =
     (if length d < 4 then Return 0 (Some ErrOutputOverrun) d
      else if len \<ge> 3 \<and> len \<le> 4 \<and> offset \<ge> 1 \<and> offset \<le> 0x700 then
        (let off = offset - 1;
             offHigh = drop_bit 6 off AND 0x1f;
             offLow = push_bit 2 (off AND 0x3f);
             lenCode = push_bit 5 (len - 1)
         in store d 0 (word_of_int (lenCode OR offHigh)) (\<lambda>d1.
              store d1 1 (word_of_int offLow) (\<lambda>d2. Return 2 None d2)))
      else if len \<ge> 3 \<and> offset \<ge> 1 \<and> offset \<le> 0x4000 then
        (let off = offset - 1;
             offByte0 = drop_bit 6 off AND 0xff;
             offByte1 = push_bit 2 (off AND 0x3f)
         in if len \<le> 33 then
              store d 0 (word_of_int (0x20 OR (len - 2))) (offset_bytes offByte0 offByte1 1)
            else
              store d 0 0x20 (\<lambda>d1.
                case match_successors (len - 2 - 31) 1 d1 of
                  None \<Rightarrow> Panic
                | Some (n, d2) \<Rightarrow> offset_bytes offByte0 offByte1 n d2))
      else if offset > 0x4000 \<and> offset \<le> 0xbfff then
        (let off = offset - 0x4000;
             offHigh = drop_bit 11 off AND 0x08;
             offByte0 = drop_bit 6 off AND 0xff;
             offByte1 = push_bit 2 (off AND 0x3f)
         in if len \<le> 9 then
              store d 0 (word_of_int (0x10 OR offHigh OR (len - 2))) (offset_bytes offByte0 offByte1 1)
            else
              store d 0 (word_of_int (0x10 OR offHigh)) (\<lambda>d1.
                case match_successors (len - 2 - 7) 1 d1 of
                  None \<Rightarrow> Panic
                | Some (n, d2) \<Rightarrow> offset_bytes offByte0 offByte1 n d2))
      else Return 0 (Some ErrOutputOverrun) d)"

text \<open>
  A call \<open>f(dst[op:])\<close> on the tail of the destination: the callee sees the slice from
  \<open>op\<close> on and writes through to the caller's array. Slicing beyond the length panics.
\<close>

definition on_tail :: "byte list \<Rightarrow> nat \<Rightarrow> (byte list \<Rightarrow> result) \<Rightarrow> result" where
  "on_tail d n f =
     (if n > length d then Panic
      else case f (drop n d) of
             Panic \<Rightarrow> Panic
           | Return m e d' \<Rightarrow> Return m e (take n d @ d'))"

text \<open>The EOF marker \<open>0x11 0x00 0x00\<close> at \<open>op\<close>, after its check, and the final return.\<close>

definition emit_eof :: "nat \<Rightarrow> byte list \<Rightarrow> result" where
  "emit_eof n d =
     (if n + 3 > length d then Return n (Some ErrOutputOverrun) d
      else store d n 0x11 (\<lambda>d1. store d1 (n + 1) 0x00 (\<lambda>d2. store d2 (n + 2) 0x00 (\<lambda>d3.
             Return (n + 3) None d3))))"

definition compressLiteralsOnly :: "byte list \<Rightarrow> byte list \<Rightarrow> result" where
  "compressLiteralsOnly src d =
     (case emitLiterals src d True of
        Panic \<Rightarrow> Panic
      | Return n (Some e) d1 \<Rightarrow> Return 0 (Some e) d1
      | Return n None d1 \<Rightarrow> emit_eof (0 + n) d1)"

text \<open>
  The calls of the two emitters, in order. The field \<open>trace\<close> of the loop state below
  records them; it is not a variable of the Go code and no branch reads it. It is there
  so that statements about what the encoder emits can name the calls.
\<close>

datatype emission = Literals "byte list" bool | Match int int

record enc =
  c_ip :: nat
  c_op :: nat
  litStart :: nat
  isFirstOutput :: bool
  hashTable :: "nat \<Rightarrow> int"
  c_dst :: "byte list"
  trace :: "emission list"

datatype cstep = CNext enc | CHalt nat error "byte list" | CFault

text \<open>
  \<open>for matchLen < maxLen && src[ref+matchLen] == src[ip+matchLen] { matchLen++ }\<close>;
  \<open>None\<close> is a read out of range.
\<close>

function match_length :: "byte list \<Rightarrow> nat \<Rightarrow> nat \<Rightarrow> nat \<Rightarrow> nat \<Rightarrow> nat option" where
  "match_length src ref i matchLen maxLen =
     (if matchLen < maxLen then
        (if ref + matchLen < length src \<and> i + matchLen < length src then
           (if src ! (ref + matchLen) = src ! (i + matchLen)
            then match_length src ref i (matchLen + 1) maxLen
            else Some matchLen)
         else None)
      else Some matchLen)"
  by pat_completeness auto
termination
  by (relation "measure (\<lambda>(src, ref, i, matchLen, maxLen). maxLen - matchLen)") auto

declare match_length.simps [simp del]

text \<open>
  \<open>for i := ip - matchLen + 1; i < ip && i < inLen-4; i++ { hashTable[hash(i)] = i }\<close>
  (the input has more than three bytes here, so \<open>inLen - 4\<close> is compared as an integer).
\<close>

function refresh :: "byte list \<Rightarrow> nat \<Rightarrow> nat \<Rightarrow> (nat \<Rightarrow> int) \<Rightarrow> (nat \<Rightarrow> int)" where
  "refresh src i ipEnd tbl =
     (if i < ipEnd \<and> int i < int (length src) - 4
      then refresh src (i + 1) ipEnd (tbl(hash src i := int i))
      else tbl)"
  by pat_completeness auto
termination
  by (relation "measure (\<lambda>(src, i, ipEnd, tbl). ipEnd - i)") auto

declare refresh.simps [simp del]

text \<open>
  The part of the loop body after a match has passed both gates: emit the pending
  literals, emit the match, advance, refresh the hash table. \<open>s\<close> is the state with the
  hash slot of \<open>ip\<close> already updated. The pending literals are the slice
  \<open>src[litStart:ip]\<close>, taken only when \<open>litStart < ip\<close>; it panics when \<open>ip\<close> is beyond the
  input.
\<close>

definition emit_match_at :: "byte list \<Rightarrow> enc \<Rightarrow> int \<Rightarrow> nat \<Rightarrow> cstep" where
  "emit_match_at src s offset matchLen =
     (let litLen = c_ip s - litStart s in
      case (if litLen > 0
            then (if c_ip s > length src then Panic
                  else on_tail (c_dst s) (c_op s)
                         (\<lambda>d. emitLiterals (take litLen (drop (litStart s) src)) d (isFirstOutput s)))
            else Return 0 None (c_dst s)) of
        Panic \<Rightarrow> CFault
      | Return n (Some e) d1 \<Rightarrow> CHalt (c_op s) e d1
      | Return n None d1 \<Rightarrow>
            (let op1 = c_op s + n in
             case on_tail d1 op1 (\<lambda>d. emitMatch d offset (int matchLen)) of
               Panic \<Rightarrow> CFault
             | Return m (Some e) d2 \<Rightarrow> CHalt op1 e d2
             | Return m None d2 \<Rightarrow>
                 (let ip' = c_ip s + matchLen in
                  CNext (s\<lparr>c_op := op1 + m, c_dst := d2, isFirstOutput := False,
                           c_ip := ip', litStart := ip',
                           hashTable := refresh src (ip' - matchLen + 1) ip' (hashTable s),
                           trace := trace s
                             @ (if litLen > 0
                                then [Literals (take litLen (drop (litStart s) src)) (isFirstOutput s)]
                                else [])
                             @ [Match offset (int matchLen)]\<rparr>))))"

text \<open>One pass of the main loop \<open>for ip < inLen-minMatch\<close>.\<close>

definition cstep :: "byte list \<Rightarrow> enc \<Rightarrow> cstep" where
  "cstep src s =
     (let inLen = length src;
          h = hash src (c_ip s);
          ref = hashTable s h;
          s1 = s\<lparr>hashTable := (hashTable s)(h := int (c_ip s))\<rparr>;
          offset = int (c_ip s) - ref
      in
      if offset > 0 \<and> offset \<le> maxOffset \<and> ref \<ge> 0 \<and> c_ip s + 4 \<le> inLen then
        (if nat ref + 2 < inLen \<and> c_ip s + 2 < inLen then
           (if src ! nat ref = src ! c_ip s \<and> src ! (nat ref + 1) = src ! (c_ip s + 1)
               \<and> src ! (nat ref + 2) = src ! (c_ip s + 2) then
              (let maxLen = (if inLen - c_ip s > 264 then 264 else inLen - c_ip s) in
               case match_length src (nat ref) (c_ip s) 3 maxLen of
                 None \<Rightarrow> CFault
               | Some matchLen \<Rightarrow>
                   (let litLen = c_ip s - litStart s in
                    if \<not> isFirstOutput s \<and> litLen > 0 \<and> litLen < 4 then
                      CNext (s1\<lparr>c_ip := c_ip s + 1\<rparr>)
                    else
                      (let remainingAfterMatch = int inLen - (int (c_ip s) + int matchLen) in
                       if remainingAfterMatch > 0 \<and> remainingAfterMatch < 4 then
                         CNext (s1\<lparr>c_ip := c_ip s + 1\<rparr>)
                       else emit_match_at src s1 offset matchLen)))
            else CNext (s1\<lparr>c_ip := c_ip s + 1\<rparr>))
         else CFault)
      else CNext (s1\<lparr>c_ip := c_ip s + 1\<rparr>))"

function cloop :: "byte list \<Rightarrow> enc \<Rightarrow> cstep" where
  "cloop src s =
     (if int (c_ip s) < int (length src) - int minMatch then
        (case cstep src s of
           CNext s' \<Rightarrow> cloop src s'
         | CHalt n e d \<Rightarrow> CHalt n e d
         | CFault \<Rightarrow> CFault)
      else CNext s)"
  by pat_completeness auto

text \<open>What follows the loop: the remaining bytes as literals, then the EOF marker.\<close>

definition finish :: "byte list \<Rightarrow> enc \<Rightarrow> result \<times> emission list" where
  "finish src s =
     (let litLen = length src - litStart s in
      if litLen > 0 then
        (case on_tail (c_dst s) (c_op s)
                (\<lambda>d. emitLiterals (drop (litStart s) src) d (isFirstOutput s)) of
           Panic \<Rightarrow> (Panic, trace s)
         | Return n (Some e) d1 \<Rightarrow> (Return (c_op s) (Some e) d1, trace s)
         | Return n None d1 \<Rightarrow>
             (emit_eof (c_op s + n) d1,
              trace s @ [Literals (drop (litStart s) src) (isFirstOutput s)]))
      else (emit_eof (c_op s) (c_dst s), trace s))"

text \<open>
  \<open>Compress\<close> with the trace of its emitter calls; \<open>Compress\<close> itself is the first
  component. The hash table starts with \<open>-maxOffset\<close> in every slot. The trace is
  used for calls that return success only; a run that stops inside the loop reports none.
\<close>

definition Compress_traced :: "byte list \<Rightarrow> byte list \<Rightarrow> result \<times> emission list" where
  "Compress_traced src d =
     (if length src = 0 then (Return 0 None d, [])
      else if length src \<le> 3 then (compressLiteralsOnly src d, [Literals src True])
      else
        case cloop src \<lparr>c_ip = 0, c_op = 0, litStart = 0, isFirstOutput = True,
                         hashTable = (\<lambda>_. - maxOffset), c_dst = d, trace = []\<rparr> of
          CNext s \<Rightarrow> finish src s
        | CHalt n e d' \<Rightarrow> (Return n (Some e) d', [])
        | CFault \<Rightarrow> (Panic, []))"

definition Compress :: "byte list \<Rightarrow> byte list \<Rightarrow> result" where
  "Compress src d = fst (Compress_traced src d)"

text \<open>
  \<open>MaxCompressedSize\<close> takes any \<open>int\<close>, not only the length of a slice, so here the
  64-bit width of Go's \<open>int\<close> matters: \<open>int64\<close> is the value a 64-bit two's-complement
  register holds after an addition, and \<open>n / 16\<close> is Go's division, which truncates
  towards zero (and cannot overflow for the divisor 16).
\<close>

definition int64 :: "int \<Rightarrow> int" where
  "int64 x = signed_take_bit 63 x"

definition go_div :: "int \<Rightarrow> int \<Rightarrow> int" where
  "go_div a b = (if (a < 0) = (b < 0) then \<bar>a\<bar> div \<bar>b\<bar> else - (\<bar>a\<bar> div \<bar>b\<bar>))"

definition MaxCompressedSize :: "int \<Rightarrow> int" where
  "MaxCompressedSize n =
     (if n = 0 then 3 else int64 (int64 (int64 (n + go_div n 16) + 64) + 3))"


section \<open>Termination of the encoder loop\<close>

lemma match_length_bounds:
  "match_length src ref i m maxLen = Some r \<Longrightarrow> m \<le> r \<and> (m \<le> maxLen \<longrightarrow> r \<le> maxLen)"
proof (induction src ref i m maxLen rule: match_length.induct)
  case (1 src ref i m maxLen)
  show ?case
  proof (cases "m < maxLen \<and> src ! (ref + m) = src ! (i + m)")
    case True
    with "1.prems" have ok: "ref + m < length src \<and> i + m < length src"
      and rec: "match_length src ref i (m + 1) maxLen = Some r"
      by (auto simp: match_length.simps [of src ref i m maxLen] split: if_splits)
    from "1.IH" [OF _ ok _ rec] True show ?thesis by auto
  next
    case False
    with "1.prems" show ?thesis
      by (auto simp: match_length.simps [of src ref i m maxLen] split: if_splits)
  qed
qed

lemma emit_match_at_ip:
  "emit_match_at src s offset matchLen = CNext s' \<Longrightarrow> c_ip s' = c_ip s + matchLen"
  by (auto simp: emit_match_at_def Let_def split: result.splits option.splits if_splits)

lemma cstep_advances: "cstep src s = CNext s' \<Longrightarrow> c_ip s < c_ip s'"
  by (auto simp: cstep_def Let_def split: if_splits option.splits
        dest!: emit_match_at_ip match_length_bounds)

termination cloop
proof (relation "measure (\<lambda>(src, s). length src - c_ip s)")
  show "wf (measure (\<lambda>(src, s). length src - c_ip s))" by (rule wf_measure)
next
  fix src s s'
  assume "int (c_ip s) < int (length src) - int minMatch" "cstep src s = CNext s'"
  then show "((src, s'), (src, s)) \<in> measure (\<lambda>(src, s). length src - c_ip s)"
    using cstep_advances [of src s s'] by auto
qed

declare cloop.simps [simp del]

section \<open>An unchecked write in the literal emitter\<close>

text \<open>
  A run of more than 18 literals that is not encoded by the first branch of
  \<open>emitLiterals\<close> (a later run, or a first run of more than 238 bytes) writes its
  \<open>0x00\<close> prefix byte without a check: on an empty destination slice the call panics.
\<close>

lemma emitLiterals_empty_dst:
  "18 < length lit \<Longrightarrow> \<not> (isFirst \<and> length lit \<le> 238) \<Longrightarrow> emitLiterals lit [] isFirst = Panic"
  by (auto simp: emitLiterals_def Let_def store_def)

text \<open>On an input without a repeated byte no candidate passes the three-byte comparison.\<close>

lemma cstep_distinct:
  assumes "distinct src" and "c_ip s + 3 < length src"
  shows "cstep src s =
           CNext (s\<lparr>hashTable := (hashTable s)(hash src (c_ip s) := int (c_ip s)),
                    c_ip := c_ip s + 1\<rparr>)"
proof -
  define ref where "ref = hashTable s (hash src (c_ip s))"
  have ne: "int (c_ip s) - ref > 0 \<Longrightarrow> ref \<ge> 0 \<Longrightarrow> src ! nat ref \<noteq> src ! c_ip s"
  proof -
    assume "int (c_ip s) - ref > 0" "ref \<ge> 0"
    then have "nat ref < c_ip s" by simp
    with assms show ?thesis by (simp add: nth_eq_iff_index_eq)
  qed
  have rng: "int (c_ip s) - ref > 0 \<Longrightarrow> ref \<ge> 0 \<Longrightarrow> nat ref + 2 < length src \<and> c_ip s + 2 < length src"
    using assms(2) by simp
  show ?thesis
    using ne rng by (auto simp: cstep_def Let_def ref_def)
qed

lemma cloop_distinct:
  "distinct src \<Longrightarrow>
     \<exists>s'. cloop src s = CNext s' \<and> c_op s' = c_op s \<and> c_dst s' = c_dst s
            \<and> litStart s' = litStart s \<and> isFirstOutput s' = isFirstOutput s"
proof (induction src s rule: cloop.induct)
  case (1 src s)
  show ?case
  proof (cases "int (c_ip s) < int (length src) - int minMatch")
    case True
    then have lt: "c_ip s + 3 < length src" by (simp add: minMatch_def)
    define s1 where "s1 = s\<lparr>hashTable := (hashTable s)(hash src (c_ip s) := int (c_ip s)),
                    c_ip := c_ip s + 1\<rparr>"
    have st: "cstep src s = CNext s1"
      unfolding s1_def using "1.prems" lt by (rule cstep_distinct)
    from "1.IH" [OF True st "1.prems"] obtain s' where
      "cloop src s1 = CNext s'" "c_op s' = c_op s1" "c_dst s' = c_dst s1"
      "litStart s' = litStart s1" "isFirstOutput s' = isFirstOutput s1" by blast
    with True st show ?thesis
      by (simp add: cloop.simps [of src s] s1_def)
  next
    case False
    then show ?thesis by (simp add: cloop.simps [of src s])
  qed
qed

lemma Compress_distinct_empty_dst:
  assumes "distinct src" and "238 < length src"
  shows "Compress src [] = Panic"
proof -
  obtain s' where s': "cloop src \<lparr>c_ip = 0, c_op = 0, litStart = 0, isFirstOutput = True,
        hashTable = (\<lambda>_. - maxOffset), c_dst = [], trace = []\<rparr> = CNext s'"
      "c_op s' = 0" "c_dst s' = []" "litStart s' = 0" "isFirstOutput s' = True"
    using cloop_distinct [OF assms(1), of "\<lparr>c_ip = 0, c_op = 0, litStart = 0, isFirstOutput = True,
        hashTable = (\<lambda>_. - maxOffset), c_dst = [], trace = []\<rparr>"]
    by auto
  have "emitLiterals src [] True = Panic"
    using assms(2) by (simp add: emitLiterals_empty_dst)
  moreover from assms(2) have ne: "src \<noteq> []" "\<not> length src \<le> 3" by auto
  ultimately have "fst (finish src s') = Panic"
    using s'(2-5) by (simp add: finish_def on_tail_def Let_def)
  with s'(1) ne show ?thesis
    by (simp add: Compress_def Compress_traced_def)
qed

lemma distinct_bytes: "n \<le> 256 \<Longrightarrow> distinct (map of_nat [0..<n] :: byte list)"
proof -
  assume n: "n \<le> 256"
  have "inj_on (of_nat :: nat \<Rightarrow> byte) {0..<n}"
  proof (rule inj_onI)
    fix x y :: nat
    assume "x \<in> {0..<n}" "y \<in> {0..<n}" and eq: "(of_nat x :: byte) = of_nat y"
    with n have "x < 2 ^ 8" "y < 2 ^ 8" by simp_all
    then have u: "unat (of_nat x :: byte) = x" "unat (of_nat y :: byte) = y"
      by (simp_all add: unat_of_nat take_bit_eq_mod)
    have "unat (of_nat x :: byte) = unat (of_nat y :: byte)" by (simp only: eq)
    then show "x = y" by (simp only: u)
  qed
  then show ?thesis by (simp add: distinct_map)
qed

text \<open>
  Claim C3: the code breaks it. On the 239 bytes \<open>0, 1, \<dots>, 238\<close> and an empty destination
  \<open>Compress\<close> neither succeeds nor returns \<open>ErrOutputOverrun\<close>: the whole input is one
  first literal run of more than 238 bytes, which takes the branch of \<open>emitLiterals\<close> that
  writes its prefix byte unchecked, and the call panics with an index out of range.
\<close>

theorem Compress_panics_on_empty_dst:
  "Compress (map of_nat [0..<239]) [] = Panic"
  by (rule Compress_distinct_empty_dst) (simp_all add: distinct_bytes)

text \<open>
  The same unchecked write in a later literal run, and the unchecked successor bytes of
  the match emitter (not reached from \<open>Compress\<close>, whose matches have at most 264 bytes).
\<close>

lemma emitLiterals_panics: "emitLiterals (replicate 19 0x41) [] False = Panic"
  by (simp add: emitLiterals_empty_dst)

lemma emitMatch_panics: "emitMatch [0, 0, 0, 0] 1 600 = Panic"
  by code_simp

section \<open>Bit operations as arithmetic\<close>

text \<open>
  The opcode bytes are built and taken apart with shifts and masks; the lemmas below
  restate them with multiplication, division and remainder.
\<close>

lemma int_and_mask_mod:
  "(x::int) AND 0x1f = x mod 32" "(x::int) AND 0x3f = x mod 64" "(x::int) AND 0xff = x mod 256"
  using take_bit_eq_mask [of 5 x] take_bit_eq_mask [of 6 x] take_bit_eq_mask [of 8 x]
  by (simp_all add: mask_eq_exp_minus_1 take_bit_eq_mod)

lemma nat_and_mask_mod:
  "(t::nat) AND 0x1f = t mod 32" "(t::nat) AND 31 = t mod 32" "(t::nat) AND 7 = t mod 8"
  "(t::nat) AND 3 = t mod 4"
  using take_bit_eq_mask [of 5 t] take_bit_eq_mask [of 3 t] take_bit_eq_mask [of 2 t]
  by (simp_all add: mask_eq_exp_minus_1 take_bit_eq_mod)

lemma and_exp_nat: "(t::nat) AND 2 ^ n = 2 ^ n * (t div 2 ^ n mod 2)"
proof -
  have "t AND 2 ^ n = push_bit n (drop_bit n t AND 1)"
    by (rule bit_eqI) (auto simp: bit_simps bit_iff_odd_drop_bit [of _ n])
  then show ?thesis by (simp add: and_one_eq push_bit_eq_mult drop_bit_eq_div mult.commute)
qed

lemma and_exp_int: "(x::int) AND 2 ^ n = 2 ^ n * (x div 2 ^ n mod 2)"
proof -
  have "x AND 2 ^ n = push_bit n (drop_bit n x AND 1)"
    by (rule bit_eqI) (auto simp: bit_simps bit_iff_odd_drop_bit [of _ n])
  then show ?thesis by (simp add: and_one_eq push_bit_eq_mult drop_bit_eq_div mult.commute)
qed

lemma and_8_nat: "(t::nat) AND 8 = 8 * (t div 8 mod 2)"
  using and_exp_nat [of t 3] by simp

lemma and_8_int: "(x::int) AND 8 = 8 * (x div 8 mod 2)"
  using and_exp_int [of x 3] by simp

lemma or_add_int: "0 \<le> b \<Longrightarrow> b < 2 ^ n \<Longrightarrow> (2 ^ n * a) OR b = 2 ^ n * a + (b::int)"
proof -
  assume b: "0 \<le> b" "b < 2 ^ n"
  then have "take_bit n b = b" by (simp add: take_bit_int_eq_self)
  then have "concat_bit n b a = b OR push_bit n a" by (simp add: concat_bit_def)
  with b show ?thesis
    by (simp add: concat_bit_eq take_bit_int_eq_self push_bit_eq_mult or.commute mult.commute)
qed

lemma or_add_int_32: "0 \<le> b \<Longrightarrow> b < 32 \<Longrightarrow> (32 * a) OR b = 32 * a + (b::int)"
  using or_add_int [of b 5 a] by simp

lemma or_add_int_16: "0 \<le> b \<Longrightarrow> b < 16 \<Longrightarrow> (16 * a) OR b = 16 * a + (b::int)"
  using or_add_int [of b 4 a] by simp

lemma or_add_int_8: "0 \<le> b \<Longrightarrow> b < 8 \<Longrightarrow> (8 * a) OR b = 8 * a + (b::int)"
  using or_add_int [of b 3 a] by simp

lemma unat_byte_of_nat: "n < 256 \<Longrightarrow> unat (of_nat n :: 8 word) = n"
  by (simp add: unat_of_nat take_bit_eq_mod)

lemma byte_of_int_nat: "0 \<le> x \<Longrightarrow> (word_of_int x :: 8 word) = of_nat (nat x)"
  by simp

lemma unat_drop_bit_2: "unat (drop_bit 2 (b :: 8 word)) = unat b div 4"
  using unat_drop_bit_eq [of 2 b] by (simp add: drop_bit_eq_div)

lemma byte_int: "(word_of_int (int n) :: 8 word) = of_nat n"
  by simp

lemma M2_tag:
  assumes "x < 1792" "3 \<le> len"
  shows "(word_of_int (push_bit 5 (int len - 1) OR (drop_bit 6 (int x) AND 0x1f)) :: 8 word)
         = of_nat (32 * (len - 1) + x div 64)"
proof -
  have a: "int len - 1 = int (len - 1)" using assms by simp
  have b: "x div 64 < 28" using assms by simp
  have hi: "drop_bit 6 (int x) AND 0x1f = int (x div 64)"
    using b by (simp add: int_and_mask_mod drop_bit_eq_div zdiv_int)
  have lo: "push_bit 5 (int (len - 1)) = 32 * int (len - 1)"
    by (simp add: push_bit_eq_mult)
  have "push_bit 5 (int len - 1) OR (drop_bit 6 (int x) AND 0x1f)
        = 32 * int (len - 1) + int (x div 64)"
    unfolding a hi lo using b or_add_int_32 [of "int (x div 64)" "int (len - 1)"] by simp
  also have "\<dots> = int (32 * (len - 1) + x div 64)" by simp
  finally show ?thesis by (simp only: byte_int)
qed

lemma low_offset_byte:
  "(word_of_int (push_bit 2 (int x AND 0x3f)) :: 8 word) = of_nat (4 * (x mod 64))"
proof -
  have "push_bit 2 (int x AND 0x3f) = int (4 * (x mod 64))"
    by (simp add: int_and_mask_mod push_bit_eq_mult zmod_int)
  then show ?thesis by (simp only: byte_int)
qed

lemma high_offset_byte:
  "(word_of_int (drop_bit 6 (int x) AND 0xff) :: 8 word) = of_nat (x div 64 mod 256)"
proof -
  have "drop_bit 6 (int x) AND 0xff = int (x div 64 mod 256)"
    by (simp add: int_and_mask_mod drop_bit_eq_div zdiv_int zmod_int)
  then show ?thesis by (simp only: byte_int)
qed

lemma M3_tag:
  assumes "3 \<le> len" "len \<le> 33"
  shows "(word_of_int (0x20 OR (int len - 2)) :: 8 word) = of_nat (32 + (len - 2))"
proof -
  have a: "int len - 2 = int (len - 2)" using assms by simp
  have "0x20 OR (int len - 2) = 32 + int (len - 2)"
    unfolding a using assms or_add_int_32 [of "int (len - 2)" 1] by simp
  also have "\<dots> = int (32 + (len - 2))" by simp
  finally show ?thesis by (simp only: byte_int)
qed

lemma M4_high_bit:
  assumes "off < 32768"
  shows "drop_bit 11 (int off) AND 0x08 = int (8 * (off div 16384))"
proof -
  have "off div 16384 < 2" using assms by simp
  then have m: "off div 16384 mod 2 = off div 16384" by simp
  have "off div 2048 div 8 = off div 16384" by (simp add: div_mult2_eq)
  then have "int (off div 2048) AND 8 = int (8 * (off div 16384))"
    using m by (simp add: and_8_int zdiv_int [symmetric] zmod_int [symmetric])
  then show ?thesis by (simp add: drop_bit_eq_div zdiv_int)
qed

lemma M4_tag:
  assumes "off < 32768" "3 \<le> len" "len \<le> 9"
  shows "(word_of_int (0x10 OR (drop_bit 11 (int off) AND 0x08) OR (int len - 2)) :: 8 word)
         = of_nat (16 + 8 * (off div 16384) + (len - 2))"
proof -
  have a: "int len - 2 = int (len - 2)" using assms by simp
  have h: "off div 16384 < 2" using assms by simp
  have 1: "int (8 * (off div 16384)) OR int (len - 2) = int (8 * (off div 16384) + (len - 2))"
    using assms or_add_int_8 [of "int (len - 2)" "int (off div 16384)"] by simp
  have 2: "0x10 OR int (8 * (off div 16384) + (len - 2)) = int (16 + 8 * (off div 16384) + (len - 2))"
    using assms h or_add_int_16 [of "int (8 * (off div 16384) + (len - 2))" 1] by simp
  have "0x10 OR (drop_bit 11 (int off) AND 0x08) OR (int len - 2)
        = int (16 + 8 * (off div 16384) + (len - 2))"
    unfolding a M4_high_bit [OF assms(1)] 1 2 ..
  then show ?thesis by (simp only: byte_int)
qed

lemma M4_tag_ext:
  assumes "off < 32768"
  shows "(word_of_int (0x10 OR (drop_bit 11 (int off) AND 0x08)) :: 8 word)
         = of_nat (16 + 8 * (off div 16384))"
proof -
  have h: "off div 16384 < 2" using assms by simp
  have "0x10 OR int (8 * (off div 16384)) = int (16 + 8 * (off div 16384))"
    using h or_add_int_16 [of "int (8 * (off div 16384))" 1] by simp
  then have "0x10 OR (drop_bit 11 (int off) AND 0x08) = int (16 + 8 * (off div 16384))"
    unfolding M4_high_bit [OF assms(1)] .
  then show ?thesis by (simp only: byte_int)
qed

section \<open>The bytes of the opcodes\<close>

text \<open>
  The bytes that the two emitters write for a call, as lists: the prefix of a literal run
  of \<open>n\<close> bytes, and the opcode of a match with offset \<open>off\<close> and length \<open>len\<close>
  (for \<open>3 \<le> len \<le> 264\<close> and \<open>1 \<le> off \<le> 49151\<close>, the calls that \<open>Compress\<close> makes).
\<close>

function ext_bytes :: "nat \<Rightarrow> byte list" where
  "ext_bytes r = (if r > 255 then 0 # ext_bytes (r - 255) else [of_nat r])"
  by pat_completeness auto
termination
  by (relation "measure id") auto

declare ext_bytes.simps [simp del]

definition lit_header :: "bool \<Rightarrow> nat \<Rightarrow> byte list" where
  "lit_header isFirst n =
     (if isFirst \<and> n \<le> 3 then [of_nat (n + 17)]
      else if n \<le> 18 then [word_of_int (int n - 3)]
      else 0 # ext_bytes (n - 18))"

definition mat_bytes :: "nat \<Rightarrow> nat \<Rightarrow> byte list" where
  "mat_bytes off len =
     (if len \<le> 4 \<and> off \<le> 1792 then
        [of_nat (32 * (len - 1) + (off - 1) div 64), of_nat (4 * ((off - 1) mod 64))]
      else if off \<le> 16384 then
        (if len \<le> 33 then [of_nat (32 + (len - 2))] else [32, of_nat (len - 33)])
        @ [of_nat ((off - 1) div 64 mod 256), of_nat (4 * ((off - 1) mod 64))]
      else
        (if len \<le> 9 then [of_nat (16 + 8 * ((off - 16384) div 16384) + (len - 2))]
         else [of_nat (16 + 8 * ((off - 16384) div 16384)), of_nat (len - 9)])
        @ [of_nat ((off - 16384) div 64 mod 256), of_nat (4 * ((off - 16384) mod 64))])"

fun tok_bytes :: "emission \<Rightarrow> byte list" where
  "tok_bytes (Literals lit isFirst) = lit_header isFirst (length lit) @ lit"
| "tok_bytes (Match off len) = mat_bytes (nat off) (nat len)"

lemma length_ext_bytes: "0 < r \<Longrightarrow> length (ext_bytes r) = (r - 1) div 255 + 1"
proof (induction r rule: ext_bytes.induct)
  case (1 r)
  show ?case
  proof (cases "r > 255")
    case True
    with "1.IH" have "length (ext_bytes (r - 255)) = (r - 255 - 1) div 255 + 1" by simp
    moreover from True have "(r - 1) div 255 = (r - 255 - 1) div 255 + 1" by simp
    ultimately show ?thesis using True by (simp add: ext_bytes.simps [of r])
  next
    case False
    then show ?thesis by (simp add: ext_bytes.simps [of r])
  qed
qed

lemma length_lit_header:
  "length (lit_header isFirst n) = (if n \<le> 18 then 1 else 2 + (n - 19) div 255)"
  by (simp add: lit_header_def length_ext_bytes)

lemma length_mat_bytes:
  "length (mat_bytes off len) =
     (if len \<le> 4 \<and> off \<le> 1792 then 2
      else if off \<le> 16384 then (if len \<le> 33 then 3 else 4)
      else (if len \<le> 9 then 3 else 4))"
  by (simp add: mat_bytes_def)

lemma lit_successors_ok:
  "n + length (ext_bytes r) \<le> length d \<Longrightarrow>
     lit_successors r n d
       = Inr (n + length (ext_bytes r), take n d @ ext_bytes r @ drop (n + length (ext_bytes r)) d)"
proof (induction r n d rule: lit_successors.induct)
  case (1 r n d)
  show ?case
  proof (cases "r > 255")
    case True
    with "1.prems" have len: "n + 1 + length (ext_bytes (r - 255)) \<le> length d" and n: "n < length d"
      by (simp_all add: ext_bytes.simps [of r])
    then have "lit_successors (r - 255) (n + 1) (d[n := 0])
        = Inr (n + 1 + length (ext_bytes (r - 255)),
               take (n + 1) (d[n := 0]) @ ext_bytes (r - 255)
                 @ drop (n + 1 + length (ext_bytes (r - 255))) (d[n := 0]))"
      using "1.IH" [OF True] by simp
    moreover have "take (n + 1) (d[n := 0]) = take n d @ [0]"
      using n by (simp add: take_Suc_conv_app_nth)
    ultimately show ?thesis
      using True n by (simp add: lit_successors.simps [of r n d] ext_bytes.simps [of r])
  next
    case False
    with "1.prems" have n: "n < length d" by (simp add: ext_bytes.simps [of r])
    then have "d[n := of_nat r] = take n d @ [of_nat r] @ drop (n + 1) d"
      by (simp add: upd_conv_take_nth_drop)
    with False n show ?thesis
      by (simp add: lit_successors.simps [of r n d] ext_bytes.simps [of r])
  qed
qed

lemma copy_lit_ok:
  "n + length lit \<le> length d \<Longrightarrow>
     copy_lit lit n d = Return (n + length lit) None (take n d @ lit @ drop (n + length lit) d)"
  by (simp add: copy_lit_def)

lemma store_ok: "i < length d \<Longrightarrow> store d i v k = k (d[i := v])"
  by (simp add: store_def)

lemma emitLiterals_ok:
  assumes "lit \<noteq> []" and "length (lit_header isFirst (length lit)) + length lit \<le> length d"
  shows "emitLiterals lit d isFirst
           = Return (length (lit_header isFirst (length lit)) + length lit) None
               (lit_header isFirst (length lit) @ lit
                  @ drop (length (lit_header isFirst (length lit)) + length lit) d)"
proof -
  obtain x d' where d: "d = x # d'" using assms by (cases d) auto
  have short: "length lit \<le> 18 \<Longrightarrow> ?thesis"
  proof -
    assume l: "length lit \<le> 18"
    then have "length (lit_header isFirst (length lit)) = 1" by (simp add: length_lit_header)
    with assms(2) d have "length lit \<le> length d'" by simp
    with l assms(1) d show ?thesis
      by (auto simp: emitLiterals_def Let_def lit_header_def store_def copy_lit_def)
  qed
  have long: "18 < length lit \<Longrightarrow> ?thesis"
  proof -
    assume l: "18 < length lit"
    define r where "r = length lit - 18"
    have h: "lit_header isFirst (length lit) = 0 # ext_bytes r"
      using l by (simp add: lit_header_def r_def)
    from assms(2) h have room: "1 + length (ext_bytes r) \<le> length (d[0 := 0])" by simp
    have succ: "lit_successors r 1 (d[0 := 0])
        = Inr (1 + length (ext_bytes r), 0 # ext_bytes r @ drop (length (ext_bytes r)) d')"
      using lit_successors_ok [OF room] d by simp
    have cp: "copy_lit lit (1 + length (ext_bytes r)) (0 # ext_bytes r @ drop (length (ext_bytes r)) d')
        = Return (1 + length (ext_bytes r) + length lit) None
            (0 # ext_bytes r @ lit @ drop (length (ext_bytes r) + length lit) d')"
      using assms(2) h d by (simp add: copy_lit_def add.commute)
    show ?thesis
    proof (cases "isFirst \<and> length lit \<le> 238")
      case True
      then have r255: "r \<le> 255" unfolding r_def by arith
      then have e: "ext_bytes r = [of_nat r]" by (simp add: ext_bytes.simps [of r])
      from assms(2) h e d have len2: "2 + length lit \<le> length d" by simp
      with d obtain y d'' where d2: "d = x # y # d''" by (cases d') auto
      with True l r255 e h len2 assms(1) show ?thesis
        by (simp add: emitLiterals_def Let_def store_def copy_lit_def r_def [symmetric])
    next
      case False
      with l d h succ cp show ?thesis
        by (auto simp: emitLiterals_def Let_def store_def r_def [symmetric])
    qed
  qed
  from short long show ?thesis by (cases "length lit \<le> 18") auto
qed

lemma emit_eof_append:
  "emit_eof (length p) (p @ x # y # z # r) = Return (length p + 3) None (p @ [0x11, 0, 0] @ r)"
  by (simp add: emit_eof_def store_def list_update_append)

lemma split_at_3:
  assumes "n + 3 \<le> length d"
  shows "\<exists>x y z. d = take n d @ x # y # z # drop (n + 3) d"
proof -
  have "d = take n d @ drop n d" by simp
  moreover have "drop n d = d ! n # d ! (n + 1) # d ! (n + 2) # drop (n + 3) d"
    using assms
    by (simp add: Cons_nth_drop_Suc numeral_3_eq_3)
  ultimately show ?thesis by metis
qed

lemma emit_eof_ok:
  assumes "n + 3 \<le> length d"
  shows "emit_eof n d = Return (n + 3) None (take n d @ [0x11, 0, 0] @ drop (n + 3) d)"
proof -
  from split_at_3 [OF assms] obtain x y z where d: "d = take n d @ x # y # z # drop (n + 3) d"
    by blast
  have ln: "length (take n d) = n" using assms by simp
  from emit_eof_append [of "take n d" x y z "drop (n + 3) d"] show ?thesis
    unfolding ln d [symmetric] .
qed

section \<open>The emitters on a destination with room\<close>

lemma match_successors_short:
  "r \<le> 255 \<Longrightarrow> n < length d \<Longrightarrow> match_successors r n d = Some (n + 1, d[n := word_of_int r])"
  by (simp add: match_successors.simps [of r n d])

lemma emitMatch_ok:
  assumes "1 \<le> off" and "off \<le> 49151" and "3 \<le> len" and "len \<le> 264" and "4 \<le> length d"
  shows "emitMatch d (int off) (int len)
           = Return (length (mat_bytes off len)) None
               (mat_bytes off len @ drop (length (mat_bytes off len)) d)"
proof -
  obtain a b c e r where d: "d = a # b # c # e # r"
    using assms(5)
    by (cases d; cases "tl d"; cases "tl (tl d)"; cases "tl (tl (tl d))") auto
  have o1: "int off - 1 = int (off - 1)" using assms(1) by simp
  have lo1: "(word_of_int (push_bit 2 ((int off - 1) AND 0x3f)) :: byte) = of_nat (4 * ((off - 1) mod 64))"
    unfolding o1 by (rule low_offset_byte)
  have hi1: "(word_of_int (drop_bit 6 (int off - 1) AND 0xff) :: byte) = of_nat ((off - 1) div 64 mod 256)"
    unfolding o1 by (rule high_offset_byte)
  show ?thesis
  proof (cases "len \<le> 4 \<and> off \<le> 1792")
    case True
    then have lt: "off - 1 < 1792" using assms(1) by arith
    have tag: "(word_of_int (push_bit 5 (int len - 1) OR (drop_bit 6 (int off - 1) AND 0x1f)) :: byte)
         = of_nat (32 * (len - 1) + (off - 1) div 64)"
      unfolding o1 by (rule M2_tag [OF lt assms(3)])
    from True assms d show ?thesis
      unfolding emitMatch_def Let_def tag lo1
      by (simp add: store_def mat_bytes_def)
  next
    case nM2: False
    show ?thesis
    proof (cases "off \<le> 16384")
      case True
      show ?thesis
      proof (cases "len \<le> 33")
        case l: True
        from M3_tag [OF assms(3) l]
        have tag: "(word_of_int (0x20 OR (int len - 2)) :: byte) = of_nat (32 + (len - 2))" .
        from nM2 True l assms d show ?thesis
          unfolding emitMatch_def Let_def offset_bytes_def tag lo1 hi1
          by (auto simp: store_def offset_bytes_def mat_bytes_def)
      next
        case l: False
        then have r: "int len - 2 - 31 = int (len - 33)" "int (len - 33) \<le> 255"
          using assms(4) by arith+
        from nM2 True l assms d show ?thesis
          unfolding emitMatch_def Let_def offset_bytes_def lo1 hi1 r(1)
          by (auto simp: store_def offset_bytes_def mat_bytes_def r(2) match_successors_short)
      qed
    next
      case False
      define x where "x = off - 16384"
      have x: "int off - 0x4000 = int x" "x < 32768" using False assms(2) unfolding x_def by arith+
      have lo: "(word_of_int (push_bit 2 (int x AND 0x3f)) :: byte) = of_nat (4 * (x mod 64))"
        by (rule low_offset_byte)
      have hi: "(word_of_int (drop_bit 6 (int x) AND 0xff) :: byte) = of_nat (x div 64 mod 256)"
        by (rule high_offset_byte)
      show ?thesis
      proof (cases "len \<le> 9")
        case l: True
        note tag = M4_tag [OF x(2) assms(3) l]
        from nM2 False l assms d show ?thesis
          unfolding emitMatch_def Let_def offset_bytes_def x(1) tag lo hi
          by (auto simp: store_def offset_bytes_def mat_bytes_def x_def [symmetric])
      next
        case l: False
        then have r: "int len - 2 - 7 = int (len - 9)" "int (len - 9) \<le> 255"
          using assms(4) by arith+
        note tag = M4_tag_ext [OF x(2)]
        from nM2 False l assms d show ?thesis
          unfolding emitMatch_def Let_def offset_bytes_def x(1) tag lo hi r(1)
          by (auto simp: store_def offset_bytes_def mat_bytes_def r(2) match_successors_short
              x_def [symmetric])
      qed
    qed
  qed
qed

lemma on_tail_ok:
  assumes "n \<le> length d" and "f (drop n d) = Return m None (bs @ drop m (drop n d))"
    and "length bs = m"
  shows "on_tail d n f = Return m None (take n d @ bs @ drop (n + m) d)"
  using assms by (simp add: on_tail_def add.commute)

section \<open>The decoder on the opcodes of the encoder\<close>

text \<open>
  \<open>no_reuse src s\<close>: the opcode the decoder is about to parse in \<open>s\<close> is not an M2 with
  offset reuse. \<open>plain_steps src s s'\<close>: the loop goes from \<open>s\<close> to \<open>s'\<close> and takes the
  reuse path at none of the loop heads before \<open>s'\<close>.
\<close>

definition no_reuse :: "byte list \<Rightarrow> dec \<Rightarrow> bool" where
  "no_reuse src s \<longleftrightarrow>
     \<not> (state s = stateMatch \<and> ip s < length src \<and> 64 \<le> unat (src ! ip s)
        \<and> 0x1c \<le> unat (src ! ip s) AND 0x1f)"

inductive plain_steps :: "byte list \<Rightarrow> dec \<Rightarrow> dec \<Rightarrow> bool" for src :: "byte list" where
  plain_refl: "plain_steps src s s"
| plain_step: "no_reuse src s \<Longrightarrow> state s \<noteq> stateEOF \<Longrightarrow> dstep src s = Next s'
                \<Longrightarrow> plain_steps src s' s'' \<Longrightarrow> plain_steps src s s''"

lemma plain_steps_trans:
  "plain_steps src s s' \<Longrightarrow> plain_steps src s' s'' \<Longrightarrow> plain_steps src s s''"
  by (induction rule: plain_steps.induct) (auto intro: plain_steps.intros)

lemma plain_one:
  "no_reuse src s \<Longrightarrow> state s \<noteq> stateEOF \<Longrightarrow> dstep src s = Next s' \<Longrightarrow> plain_steps src s s'"
  by (auto intro: plain_steps.intros)

lemma plain_steps_run: "plain_steps src s s' \<Longrightarrow> run src s = run src s'"
  by (induction rule: plain_steps.induct) (simp_all add: run_next)

lemma no_reuse_other: "state s \<noteq> stateMatch \<Longrightarrow> no_reuse src s"
  by (simp add: no_reuse_def)

text \<open>The forward, byte-by-byte lookbehind copy on the output produced so far.\<close>

fun lz_copy :: "byte list \<Rightarrow> nat \<Rightarrow> nat \<Rightarrow> byte list" where
  "lz_copy out off 0 = out"
| "lz_copy out off (Suc n) = lz_copy (out @ [out ! (length out - off)]) off n"

lemma length_lz_copy: "length (lz_copy out off n) = length out + n"
  by (induction n arbitrary: out) auto

lemma copy_literals_dst:
  "copy_literals src n s = Some s' \<Longrightarrow>
     dst s' = take (op s) (dst s) @ take n (drop (ip s) src) @ drop (op s + n) (dst s)"
proof (induction n arbitrary: s)
  case 0
  then show ?case by simp
next
  case (Suc n)
  let ?s1 = "s\<lparr>dst := (dst s)[op s := src ! ip s], op := op s + 1, ip := ip s + 1\<rparr>"
  from Suc.prems have ok: "ip s < length src" "op s < length (dst s)"
    and rec: "copy_literals src n ?s1 = Some s'"
    by (auto split: if_splits)
  from Suc.IH [OF rec] have "dst s' = take (op s + 1) ((dst s)[op s := src ! ip s])
      @ take n (drop (ip s + 1) src) @ drop (op s + 1 + n) ((dst s)[op s := src ! ip s])"
    by simp
  moreover have "take (op s + 1) ((dst s)[op s := src ! ip s]) = take (op s) (dst s) @ [src ! ip s]"
    using ok by (simp add: take_Suc_conv_app_nth)
  moreover have "take (Suc n) (drop (ip s) src) = src ! ip s # take n (drop (ip s + 1) src)"
    using ok by (simp add: Cons_nth_drop_Suc [symmetric])
  ultimately show ?case by simp
qed

lemma copy_match_prefix:
  "copy_match n (op s - off) s = Some s' \<Longrightarrow> 1 \<le> off \<Longrightarrow> off \<le> op s \<Longrightarrow>
     take (op s') (dst s') = lz_copy (take (op s) (dst s)) off n"
proof (induction n arbitrary: s)
  case 0
  then show ?case by simp
next
  case (Suc n)
  let ?d1 = "(dst s)[op s := dst s ! (op s - off)]"
  let ?s1 = "s\<lparr>dst := ?d1, op := op s + 1\<rparr>"
  from Suc.prems have ok: "op s < length (dst s)"
    and rec: "copy_match n (op s - off + 1) ?s1 = Some s'"
    by (auto split: if_splits)
  have p: "op s - off + 1 = op ?s1 - off" using Suc.prems by simp
  from Suc.IH [of ?s1] rec p Suc.prems
  have "take (op s') (dst s') = lz_copy (take (op s + 1) ?d1) off n" by simp
  moreover have "take (op s + 1) ?d1 = take (op s) (dst s) @ [dst s ! (op s - off)]"
    using ok by (simp add: take_Suc_conv_app_nth)
  moreover have "dst s ! (op s - off) = take (op s) (dst s) ! (length (take (op s) (dst s)) - off)"
    using ok Suc.prems by simp
  ultimately show ?case by simp
qed


lemma copy_run_result:
  assumes "op s + length lit \<le> length (dst s)" and "drop (ip s) src = lit @ q" and "lit \<noteq> []"
  shows "\<exists>s'. copy_run src (length lit) nxt s = Next s' \<and> state s' = nxt
           \<and> ip s' = ip s + length lit \<and> op s' = op s + length lit \<and> lastMOff s' = lastMOff s
           \<and> length (dst s') = length (dst s)
           \<and> take (op s') (dst s') = take (op s) (dst s) @ lit"
proof -
  have "length (drop (ip s) src) = length lit + length q" using assms(2) by simp
  then have a: "length src - ip s = length lit + length q" by simp
  have b: "0 < length lit" using assms(3) by simp
  from a b have inl: "ip s + length lit \<le> length src" by arith
  with assms(1) obtain s1 where c: "copy_literals src (length lit) s = Some s1"
    using copy_literals_ok [of s "length lit" src] by auto
  from copy_literals_fields [OF c] copy_literals_dst [OF c] assms
  have f: "ip s1 = ip s + length lit" "op s1 = op s + length lit" "lastMOff s1 = lastMOff s"
      "length (dst s1) = length (dst s)"
      "dst s1 = take (op s) (dst s) @ lit @ drop (op s + length lit) (dst s)"
    by simp_all
  have "take (op s + length lit) (dst s1) = take (op s) (dst s) @ lit"
    using assms(1) by (simp add: f(5))
  with c f inl assms(1) show ?thesis
    by (simp add: copy_run_def)
qed

lemma copy_back_result:
  assumes "1 \<le> off" and "off \<le> op s" and "op s + len \<le> length (dst s)"
  shows "\<exists>s'. copy_back off len s = Next s' \<and> state s' = stateMatchDone
           \<and> ip s' = ip s \<and> op s' = op s + len \<and> length (dst s') = length (dst s)
           \<and> take (op s') (dst s') = lz_copy (take (op s) (dst s)) off len"
proof -
  from assms obtain s1 where c: "copy_match len (op s - off) s = Some s1"
    using copy_match_ok [of "op s - off" s len] by auto
  from copy_match_fields [OF c] copy_match_prefix [OF c assms(1,2)] c assms show ?thesis
    by (simp add: copy_back_def)
qed

lemma drop_Cons_nth: "drop i xs = b # q \<Longrightarrow> i < length xs \<and> xs ! i = b \<and> drop (i + 1) xs = q"
proof -
  assume a: "drop i xs = b # q"
  then have l: "i < length xs" by (cases "i < length xs") auto
  from a have "drop (i + 1) xs = q" by (metis Suc_eq_plus1 drop_Suc tl_drop list.sel(3))
  moreover from a l have "xs ! i = b" by (metis Cons_nth_drop_Suc list.inject)
  ultimately show ?thesis using l by simp
qed

lemma skip_zero_bytes_ext:
  "0 < r \<Longrightarrow> drop i src = ext_bytes r @ q \<Longrightarrow>
     \<exists>j v. skip_zero_bytes src i t = (j, t + (r - v)) \<and> j < length src
       \<and> j + 1 = i + length (ext_bytes r) \<and> src ! j = of_nat v \<and> 0 < v \<and> v \<le> 255 \<and> v \<le> r"
proof (induction r arbitrary: i t rule: ext_bytes.induct)
  case (1 r)
  show ?case
  proof (cases "r > 255")
    case True
    with "1.prems" have d: "drop i src = 0 # ext_bytes (r - 255) @ q"
      by (simp add: ext_bytes.simps [of r])
    from drop_Cons_nth [OF d] have i: "i < length src" "src ! i = 0"
        "drop (i + 1) src = ext_bytes (r - 255) @ q" by simp_all
    from "1.IH" [OF True _ i(3), of "t + 255"] True obtain j v where
      jv: "skip_zero_bytes src (i + 1) (t + 255) = (j, t + 255 + (r - 255 - v))" "j < length src"
        "j + 1 = i + 1 + length (ext_bytes (r - 255))" "src ! j = of_nat v" "0 < v" "v \<le> 255"
        "v \<le> r - 255"
      by auto
    have "skip_zero_bytes src i t = skip_zero_bytes src (i + 1) (t + 255)"
      using i by (simp add: skip_zero_bytes.simps [of src i t])
    moreover have "t + 255 + (r - 255 - v) = t + (r - v)" using True jv(7) by simp
    moreover have "length (ext_bytes r) = 1 + length (ext_bytes (r - 255))"
      using True by (simp add: ext_bytes.simps [of r])
    ultimately show ?thesis using jv by (intro exI [of _ j] exI [of _ v]) simp
  next
    case False
    with "1.prems" have d: "drop i src = of_nat r # q" by (simp add: ext_bytes.simps [of r])
    from drop_Cons_nth [OF d] have i: "i < length src" "src ! i = of_nat r" by simp_all
    have "unat (of_nat r :: byte) = r" using False by (simp add: unat_byte_of_nat)
    with "1.prems"(1) have "(of_nat r :: byte) \<noteq> 0" by (metis less_numeral_extra(3) unsigned_0)
    with i have "skip_zero_bytes src i t = (i, t)"
      by (simp add: skip_zero_bytes.simps [of src i t])
    with i False "1.prems"(1) show ?thesis
      by (intro exI [of _ i] exI [of _ r]) (simp add: ext_bytes.simps [of r])
  qed
qed

lemma ext_len_ext_bytes:
  assumes "0 < r" and "drop (ip s) src = ext_bytes r @ q"
  shows "ext_len src base t s = Some (s\<lparr>ip := ip s + length (ext_bytes r)\<rparr>, t + base + r)"
proof -
  from skip_zero_bytes_ext [OF assms, of t] obtain j v where
    jv: "skip_zero_bytes src (ip s) t = (j, t + (r - v))" "j < length src"
      "j + 1 = ip s + length (ext_bytes r)" "src ! j = of_nat v" "0 < v" "v \<le> 255" "v \<le> r"
    by blast
  have "unat (of_nat v :: byte) = v" using jv(6) by (simp add: unat_byte_of_nat)
  with jv show ?thesis by (simp add: ext_len_def)
qed

lemma nat_push_bit_6: "push_bit 6 (t::nat) = 64 * t"
  by (simp add: push_bit_eq_mult)

lemma nat_push_bit_11: "push_bit 11 (t::nat) = 2048 * t"
  by (simp add: push_bit_eq_mult)

text \<open>What the decoder's match branches compute on the bytes of a match opcode.\<close>

lemma offset_from_bytes:
  assumes "unat (b0::byte) = x div 64" and "unat (b1::byte) = 4 * (x mod 64)"
  shows "push_bit 6 (unat b0) + unat (drop_bit 2 b1) = x"
  using assms by (simp add: nat_push_bit_6 unat_drop_bit_2)

lemma match_M2_bytes:
  assumes "1 \<le> off" and "off \<le> 1792" and "3 \<le> len" and "len \<le> 4"
    and "t = 32 * (len - 1) + (off - 1) div 64"
    and "unat b1 = 4 * ((off - 1) mod 64)"
    and "drop (ip s1) src = b1 # q"
  shows "match_M2 src t s1 = copy_back off len (s1\<lparr>ip := ip s1 + 1, lastMOff := off\<rparr>)"
    and "64 \<le> t" and "t < 128" and "\<not> 0x1c \<le> t AND 0x1f"
proof -
  have h: "(off - 1) div 64 < 28" using assms(1,2) by simp
  from drop_Cons_nth [OF assms(7)] have i: "\<not> length src \<le> ip s1" "src ! ip s1 = b1" by simp_all
  have t32: "t mod 32 = (off - 1) div 64" "t div 32 = len - 1"
    using h assms(5) by simp_all
  show "64 \<le> t" "t < 128" using assms(3,4,5) h by simp_all
  show nr: "\<not> 0x1c \<le> t AND 0x1f" using t32 h by (simp add: nat_and_mask_mod)
  define mOff where "mOff = 1 + push_bit 6 (t AND 0x1f) + unat (drop_bit 2 b1)"
  define mLen where "mLen = ((drop_bit 5 t) - 1) + 2"
  have m: "match_M2 src t s1 = copy_back mOff mLen (s1\<lparr>ip := ip s1 + 1, lastMOff := mOff\<rparr>)"
    using i nr by (simp add: match_M2_def Let_def index_def mOff_def mLen_def)
  have "mOff = 1 + (64 * ((off - 1) div 64) + (off - 1) mod 64)"
    using t32 assms(6) by (simp add: mOff_def nat_and_mask_mod nat_push_bit_6 unat_drop_bit_2)
  then have 1: "mOff = off" using assms(1) by simp
  have 2: "mLen = len" using t32 assms(3) by (simp add: mLen_def nat_drop_bit_5)
  show "match_M2 src t s1 = copy_back off len (s1\<lparr>ip := ip s1 + 1, lastMOff := off\<rparr>)"
    using m unfolding 1 2 .
qed

lemma two_offset_bytes:
  assumes "drop i src = b0 # b1 # q"
  shows "\<not> length src < i + 2" and "i < length src" and "i + 1 < length src"
    and "src ! i = b0" and "src ! (i + 1) = b1"
proof -
  from drop_Cons_nth [OF assms] have a: "i < length src" "src ! i = b0" "drop (i + 1) src = b1 # q"
    by simp_all
  from drop_Cons_nth [OF a(3)] have b: "i + 1 < length src" "src ! (i + 1) = b1" by simp_all
  from a b show "\<not> length src < i + 2" "i < length src" "i + 1 < length src"
    "src ! i = b0" "src ! (i + 1) = b1" by simp_all
qed

lemma match_M3_bytes_short:
  assumes "1 \<le> off" and "3 \<le> len" and "len \<le> 33"
    and "t = 32 + (len - 2)"
    and "unat b0 = (off - 1) div 64" and "unat b1 = 4 * ((off - 1) mod 64)"
    and "drop (ip s1) src = b0 # b1 # q"
  shows "match_M3 src t s1 = copy_back off len (s1\<lparr>ip := ip s1 + 2, lastMOff := off\<rparr>)"
proof -
  note i = two_offset_bytes [OF assms(7)]
  define k where "k = len - 2"
  have kb: "k < 32" "k \<noteq> 0" "t = 32 + k" using assms(2,3,4) by (simp_all add: k_def)
  then have "t AND 31 = k" by (simp add: nat_and_mask_mod)
  then have t31: "t AND 31 = len - 2" "len - 2 \<noteq> 0"
    using kb by (simp_all add: k_def)
  define mOff where "mOff = 1 + push_bit 6 (unat b0) + unat (drop_bit 2 b1)"
  have m: "match_M3 src t s1 = copy_back mOff (len - 2 + 2) (s1\<lparr>ip := ip s1 + 2, lastMOff := mOff\<rparr>)"
    using i t31 by (simp add: match_M3_def Let_def index_def mOff_def)
  have "mOff = 1 + (off - 1)"
    using offset_from_bytes [OF assms(5,6)] by (simp add: mOff_def)
  then have 1: "mOff = off" using assms(1) by simp
  have 2: "len - 2 + 2 = len" using assms(2) by simp
  show ?thesis using m unfolding 1 2 .
qed

lemma match_M3_bytes_long:
  assumes "1 \<le> off" and "33 < len" and "len \<le> 264"
    and "unat e = len - 33"
    and "unat b0 = (off - 1) div 64" and "unat b1 = 4 * ((off - 1) mod 64)"
    and "drop (ip s1) src = e # b0 # b1 # q"
  shows "match_M3 src 32 s1 = copy_back off len (s1\<lparr>ip := ip s1 + 3, lastMOff := off\<rparr>)"
proof -
  from drop_Cons_nth [OF assms(7)] have k: "ip s1 < length src" "src ! ip s1 = e"
    "drop (ip s1 + 1) src = b0 # b1 # q" by simp_all
  note i = two_offset_bytes [OF k(3)]
  have "e \<noteq> 0" using assms(2,4) by auto
  with k have "skip_zero_bytes src (ip s1) 0 = (ip s1, 0)"
    by (simp add: skip_zero_bytes.simps [of src "ip s1" 0])
  with k assms(4) have x: "ext_len src 31 0 s1 = Some (s1\<lparr>ip := ip s1 + 1\<rparr>, 31 + (len - 33))"
    by (simp add: ext_len_def)
  define mOff where "mOff = 1 + push_bit 6 (unat b0) + unat (drop_bit 2 b1)"
  have n3: "ip s1 + 3 = Suc (Suc (Suc (ip s1)))" by simp
  have m: "match_M3 src 32 s1
      = copy_back mOff (31 + (len - 33) + 2) (s1\<lparr>ip := ip s1 + 3, lastMOff := mOff\<rparr>)"
    using i x by (simp add: match_M3_def Let_def index_def mOff_def n3)
  have "mOff = 1 + (off - 1)"
    using offset_from_bytes [OF assms(5,6)] by (simp add: mOff_def)
  then have 1: "mOff = off" using assms(1) by simp
  have 2: "31 + (len - 33) + 2 = len" using assms(2) by simp
  show ?thesis using m unfolding 1 2 .
qed


lemma M4_offset_arith: "2048 * (8 * (x div 16384)) + (64 * (x div 64 mod 256) + x mod 64) = (x::nat)"
proof -
  have "x mod 16384 = 64 * (x div 64 mod 256) + x mod 64"
    using mod_mult2_eq [of x 64 256] by simp
  moreover have "x = 16384 * (x div 16384) + x mod 16384" by simp
  ultimately show ?thesis by simp
qed

lemma M4_tag_arith:
  assumes "h < 2" and "k < 8" and "t = 16 + 8 * h + (k::nat)"
  shows "t AND 7 = k" and "t AND 8 = 8 * h" and "16 \<le> t" and "t < 32"
proof -
  define j where "j = 2 + h"
  have "t = 8 * j + k" using assms(3) by (simp add: j_def)
  then have "t mod 8 = k" "t div 8 = j" using assms(2) by simp_all
  then have "t mod 8 = k" "t div 8 = 2 + h" by (simp_all add: j_def)
  moreover have "(2 + h) mod 2 = h" using assms(1) by simp
  ultimately show "t AND 7 = k" "t AND 8 = 8 * h"
    by (simp_all add: nat_and_mask_mod and_8_nat)
  show "16 \<le> t" "t < 32" using assms by simp_all
qed

lemma match_M4_bytes_short:
  assumes "1 \<le> x" and "x < 32768" and "3 \<le> len" and "len \<le> 9"
    and "t = 16 + 8 * (x div 16384) + (len - 2)"
    and "unat b0 = x div 64 mod 256" and "unat b1 = 4 * (x mod 64)"
    and "drop (ip s1) src = b0 # b1 # q"
  shows "match_M4 src t s1
           = copy_back (x + 16384) len (s1\<lparr>ip := ip s1 + 2, lastMOff := x + 16384\<rparr>)"
proof -
  note i = two_offset_bytes [OF assms(8)]
  have h: "x div 16384 < 2" "len - 2 < 8" using assms(2,4) by simp_all
  note tg = M4_tag_arith [OF h assms(5)]
  have k0: "len - 2 \<noteq> 0" using assms(3) by simp
  define mOff where "mOff = push_bit 11 (t AND 8) + (push_bit 6 (unat b0) + unat (drop_bit 2 b1))"
  have "mOff = 2048 * (8 * (x div 16384)) + (64 * (x div 64 mod 256) + x mod 64)"
    using assms(6,7) by (simp add: mOff_def tg nat_push_bit_11 nat_push_bit_6 unat_drop_bit_2)
  then have 1: "mOff = x" using M4_offset_arith [of x] by simp
  then have "mOff \<noteq> 0" using assms(1) by simp
  then have ne: "\<not> (t AND 8 = 0 \<and> unat b0 = 0 \<and> unat (drop_bit 2 b1) = 0)"
    by (auto simp: mOff_def simp del: push_bit_and)
  have m: "match_M4 src t s1
      = copy_back (mOff + m4MaxOffset) (len - 2 + 2)
          (s1\<lparr>ip := ip s1 + 2, lastMOff := mOff + m4MaxOffset\<rparr>)"
    using i tg(1) k0 ne
    by (auto simp add: match_M4_def Let_def index_def mOff_def [symmetric] simp del: push_bit_and)
  have 2: "len - 2 + 2 = len" using assms(3) by simp
  show ?thesis using m unfolding 1 2 m4MaxOffset_def by simp
qed

lemma match_M4_bytes_long:
  assumes "1 \<le> x" and "x < 32768" and "9 < len" and "len \<le> 264"
    and "t = 16 + 8 * (x div 16384)"
    and "unat e = len - 9"
    and "unat b0 = x div 64 mod 256" and "unat b1 = 4 * (x mod 64)"
    and "drop (ip s1) src = e # b0 # b1 # q"
  shows "match_M4 src t s1
           = copy_back (x + 16384) len (s1\<lparr>ip := ip s1 + 3, lastMOff := x + 16384\<rparr>)"
proof -
  from drop_Cons_nth [OF assms(9)] have k: "ip s1 < length src" "src ! ip s1 = e"
    "drop (ip s1 + 1) src = b0 # b1 # q" by simp_all
  note i = two_offset_bytes [OF k(3)]
  have h: "x div 16384 < 2" "(0::nat) < 8" using assms(2) by simp_all
  from assms(5) have t': "t = 16 + 8 * (x div 16384) + 0" by simp
  note tg = M4_tag_arith [OF h t']
  have "e \<noteq> 0" using assms(3,6) by auto
  with k have "skip_zero_bytes src (ip s1) 0 = (ip s1, 0)"
    by (simp add: skip_zero_bytes.simps [of src "ip s1" 0])
  with k assms(6) have x: "ext_len src 7 0 s1 = Some (s1\<lparr>ip := ip s1 + 1\<rparr>, 7 + (len - 9))"
    by (simp add: ext_len_def)
  define mOff where "mOff = push_bit 11 (t AND 8) + (push_bit 6 (unat b0) + unat (drop_bit 2 b1))"
  have "mOff = 2048 * (8 * (x div 16384)) + (64 * (x div 64 mod 256) + x mod 64)"
    using assms(7,8) by (simp add: mOff_def tg nat_push_bit_11 nat_push_bit_6 unat_drop_bit_2)
  then have 1: "mOff = x" using M4_offset_arith [of x] by simp
  then have "mOff \<noteq> 0" using assms(1) by simp
  then have ne: "\<not> (t AND 8 = 0 \<and> unat b0 = 0 \<and> unat (drop_bit 2 b1) = 0)"
    by (auto simp: mOff_def simp del: push_bit_and)
  have n3: "ip s1 + 3 = Suc (Suc (Suc (ip s1)))" by simp
  have m: "match_M4 src t s1
      = copy_back (mOff + m4MaxOffset) (7 + (len - 9) + 2)
          (s1\<lparr>ip := ip s1 + 3, lastMOff := mOff + m4MaxOffset\<rparr>)"
    using i tg(1) x ne
    by (auto simp add: match_M4_def Let_def index_def n3 mOff_def [symmetric] simp del: push_bit_and)
  have 2: "7 + (len - 9) + 2 = len" using assms(3) by simp
  show ?thesis using m unfolding 1 2 m4MaxOffset_def by simp
qed

lemma dstep_Match_tag:
  assumes "state s = stateMatch" and "drop (ip s) src = tg # r" and "unat tg = t"
  shows "dstep src s =
           (if t \<ge> 64 then match_M2 src t (s\<lparr>ip := ip s + 1\<rparr>)
            else if t \<ge> 32 then match_M3 src t (s\<lparr>ip := ip s + 1\<rparr>)
            else if t \<ge> 16 then match_M4 src t (s\<lparr>ip := ip s + 1\<rparr>)
            else match_M1 src t (s\<lparr>ip := ip s + 1\<rparr>))"
    and "drop (ip (s\<lparr>ip := ip s + 1\<rparr>)) src = r"
    and "no_reuse src s \<longleftrightarrow> \<not> (64 \<le> t \<and> 0x1c \<le> t AND 0x1f)"
proof -
  from drop_Cons_nth [OF assms(2)] have i: "ip s < length src" "src ! ip s = tg"
    "drop (ip s + 1) src = r" by simp_all
  from dstep_Match [OF assms(1) i(1) refl] i(2) assms(3)
  show "dstep src s =
           (if t \<ge> 64 then match_M2 src t (s\<lparr>ip := ip s + 1\<rparr>)
            else if t \<ge> 32 then match_M3 src t (s\<lparr>ip := ip s + 1\<rparr>)
            else if t \<ge> 16 then match_M4 src t (s\<lparr>ip := ip s + 1\<rparr>)
            else match_M1 src t (s\<lparr>ip := ip s + 1\<rparr>))"
    by simp
  show "drop (ip (s\<lparr>ip := ip s + 1\<rparr>)) src = r" using i(3) by simp
  show "no_reuse src s \<longleftrightarrow> \<not> (64 \<le> t \<and> 0x1c \<le> t AND 0x1f)"
    using assms(1,3) i by (simp add: no_reuse_def)
qed

text \<open>
  A match opcode of the encoder, parsed in \<open>stateMatch\<close>: the decoder recovers offset and
  length, does not take the reuse path, and the tag is at least 16.
\<close>

lemma dstep_Match_mat_bytes:
  assumes "1 \<le> off" and "off \<le> 49151" and "3 \<le> len" and "len \<le> 264"
    and st: "state s = stateMatch" and dr: "drop (ip s) src = mat_bytes off len @ q"
  shows "dstep src s
           = copy_back off len (s\<lparr>ip := ip s + length (mat_bytes off len), lastMOff := off\<rparr>)
         \<and> no_reuse src s"
proof (cases "len \<le> 4 \<and> off \<le> 1792")
  case True
  define T where "T = 32 * (len - 1) + (off - 1) div 64"
  define X where "X = 4 * ((off - 1) mod 64)"
  have mb: "mat_bytes off len = [of_nat T, of_nat X]"
    using True by (simp add: mat_bytes_def T_def X_def)
  from True have b: "off \<le> 1792" "len \<le> 4" by simp_all
  then have "(off - 1) div 64 < 28" "32 * (len - 1) \<le> 96" by simp_all
  then have "T < 256" "X < 256" by (simp_all add: T_def X_def)
  then have u: "unat (of_nat T :: byte) = T" "unat (of_nat X :: byte) = X"
    by (simp_all add: unat_byte_of_nat)
  from dr mb have d: "drop (ip s) src = of_nat T # of_nat X # q" by simp
  note tag = dstep_Match_tag [OF st d u(1)]
  note m2 = match_M2_bytes [OF assms(1) b(1) assms(3) b(2) T_def u(2) [unfolded X_def] tag(2) [unfolded X_def]]
  from tag(1) m2 tag(3) mb show ?thesis by simp
next
  case nM2: False
  show ?thesis
  proof (cases "off \<le> 16384")
    case M3: True
    define B0 where "B0 = (off - 1) div 64 mod 256"
    define X where "X = 4 * ((off - 1) mod 64)"
    have "(off - 1) div 64 < 256" using M3 by simp
    then have B0': "B0 = (off - 1) div 64" by (simp add: B0_def)
    have "B0 < 256" "X < 256" by (simp_all add: B0_def X_def)
    then have u0: "unat (of_nat B0 :: byte) = B0" "unat (of_nat X :: byte) = X"
      by (simp_all add: unat_byte_of_nat)
    note u = trans [OF u0(1) B0'] trans [OF u0(2) X_def]
    show ?thesis
    proof (cases "len \<le> 33")
      case True
      define T where "T = 32 + (len - 2)"
      have mb: "mat_bytes off len = [of_nat T, of_nat B0, of_nat X]"
        using nM2 M3 True by (auto simp: mat_bytes_def T_def X_def B0_def)
      have Tb: "T < 64" "32 \<le> T" using True assms(3) by (simp_all add: T_def)
      then have uT: "unat (of_nat T :: byte) = T" by (simp add: unat_byte_of_nat)
      from dr mb have d: "drop (ip s) src = of_nat T # of_nat B0 # of_nat X # q" by simp
      note tag = dstep_Match_tag [OF st d uT]
      note m3 = match_M3_bytes_short [OF assms(1,3) True T_def u tag(2)]
      from tag(1) m3 tag(3) mb Tb show ?thesis by simp
    next
      case False
      define E where "E = len - 33"
      have mb: "mat_bytes off len = [32, of_nat E, of_nat B0, of_nat X]"
        using nM2 M3 False by (auto simp: mat_bytes_def E_def X_def B0_def)
      have "E < 256" using assms(4) by (simp add: E_def)
      then have "unat (of_nat E :: byte) = E" by (simp add: unat_byte_of_nat)
      note uE = trans [OF this E_def]
      have uT: "unat (32 :: byte) = 32" by simp
      from dr mb have d: "drop (ip s) src = 32 # of_nat E # of_nat B0 # of_nat X # q" by simp
      note tag = dstep_Match_tag [OF st d uT]
      from False have l: "33 < len" by simp
      note m3 = match_M3_bytes_long [OF assms(1) l assms(4) uE u tag(2)]
      have n4: "Suc (Suc (Suc (Suc (ip s)))) = 4 + ip s" by simp
      from tag(1) m3 tag(3) mb show ?thesis by (simp add: n4)
    qed
  next
    case M4: False
    define x where "x = off - 16384"
    have x: "1 \<le> x" "x < 32768" "x + 16384 = off" using M4 assms(2) by (simp_all add: x_def)
    define B0 where "B0 = x div 64 mod 256"
    define X where "X = 4 * (x mod 64)"
    have "B0 < 256" "X < 256" by (simp_all add: B0_def X_def)
    then have u0: "unat (of_nat B0 :: byte) = B0" "unat (of_nat X :: byte) = X"
      by (simp_all add: unat_byte_of_nat)
    note u = trans [OF u0(1) B0_def] trans [OF u0(2) X_def]
    have h: "x div 16384 < 2" using x(2) by simp
    show ?thesis
    proof (cases "len \<le> 9")
      case True
      define T where "T = 16 + 8 * (x div 16384) + (len - 2)"
      have mb: "mat_bytes off len = [of_nat T, of_nat B0, of_nat X]"
        using nM2 M4 True by (auto simp: mat_bytes_def T_def X_def B0_def x_def)
      have Tb: "T < 32" "16 \<le> T" using True assms(3) h by (simp_all add: T_def)
      then have uT: "unat (of_nat T :: byte) = T" by (simp add: unat_byte_of_nat)
      from dr mb have d: "drop (ip s) src = of_nat T # of_nat B0 # of_nat X # q" by simp
      note tag = dstep_Match_tag [OF st d uT]
      note m4 = match_M4_bytes_short [OF x(1,2) assms(3) True T_def u tag(2)]
      from tag(1) m4 tag(3) mb Tb x(3) show ?thesis by simp
    next
      case False
      define T where "T = 16 + 8 * (x div 16384)"
      define E where "E = len - 9"
      have mb: "mat_bytes off len = [of_nat T, of_nat E, of_nat B0, of_nat X]"
        using nM2 M4 False by (auto simp: mat_bytes_def T_def E_def X_def B0_def x_def)
      have Tb: "T < 32" "16 \<le> T" using h by (simp_all add: T_def)
      then have uT: "unat (of_nat T :: byte) = T" by (simp add: unat_byte_of_nat)
      have "E < 256" using assms(4) by (simp add: E_def)
      then have "unat (of_nat E :: byte) = E" by (simp add: unat_byte_of_nat)
      note uE = trans [OF this E_def]
      from dr mb have d: "drop (ip s) src = of_nat T # of_nat E # of_nat B0 # of_nat X # q" by simp
      note tag = dstep_Match_tag [OF st d uT]
      from False have l: "9 < len" by simp
      note m4 = match_M4_bytes_long [OF x(1,2) l assms(4) T_def uE u tag(2)]
      have n4: "Suc (Suc (Suc (Suc (ip s)))) = 4 + ip s" by simp
      from tag(1) m4 tag(3) mb Tb x(3) show ?thesis by (simp add: n4)
    qed
  qed
qed

lemma nth_from_drop: "drop i xs = ys \<Longrightarrow> k < length ys \<Longrightarrow> xs ! (i + k) = ys ! k"
  by (metis add.commute drop_all leI length_greater_0_conv less_nat_zero_code list.size(3)
      nat_le_linear nth_drop)

lemma mat_bytes_last:
  "\<exists>y. last (mat_bytes off len) = of_nat (4 * (y mod 64))"
  by (auto simp: mat_bytes_def)

lemma mat_bytes_last_and_3:
  "unat (last (mat_bytes off len)) AND 3 = 0"
proof -
  obtain y where y: "last (mat_bytes off len) = of_nat (4 * (y mod 64))"
    using mat_bytes_last by blast
  have "4 * (y mod 64) < 256" by simp
  then have "unat (of_nat (4 * (y mod 64)) :: byte) = 4 * (y mod 64)" by (rule unat_byte_of_nat)
  then show ?thesis unfolding y by (simp add: nat_and_mask_mod)
qed

lemma mat_bytes_not_Nil: "mat_bytes off len \<noteq> []"
  by (simp add: mat_bytes_def)

lemma mat_bytes_tag:
  assumes "1 \<le> off" and "off \<le> 49151" and "3 \<le> len"
  shows "16 \<le> unat (hd (mat_bytes off len))"
proof -
  have a: "32 * (len - 1) + (off - 1) div 64 < 256" if "len \<le> 4" "off \<le> 1792"
  proof -
    from that have "(off - 1) div 64 < 28" "32 * (len - 1) \<le> 96" by simp_all
    then show ?thesis by simp
  qed
  have b: "16 + 8 * ((off - 16384) div 16384) + (len - 2) < 256" if "len \<le> 9"
  proof -
    have "(off - 16384) div 16384 < 2" using assms(2) by simp
    with that show ?thesis by simp
  qed
  have c: "16 + 8 * ((off - 16384) div 16384) < 256"
  proof -
    have "(off - 16384) div 16384 < 2" using assms(2) by simp
    then show ?thesis by simp
  qed
  have d: "32 + (len - 2) < 256" if "len \<le> 33" using that by simp
  show ?thesis
    using assms a b c d
    by (auto simp: mat_bytes_def unat_byte_of_nat simp del: of_nat_add of_nat_mult)
qed

lemma to_Match:
  assumes "state s = stateLiteralRun \<or> state s = stateFirstLiteralRun \<or> state s = stateMatchNext"
    and "drop (ip s) src = tg # r" and "16 \<le> unat tg"
  shows "dstep src s = Next (s\<lparr>state := stateMatch\<rparr>)" and "no_reuse src s"
    and "state s \<noteq> stateEOF"
proof -
  from drop_Cons_nth [OF assms(2)] have i: "ip s < length src" "src ! ip s = tg" by simp_all
  with assms(1,3) show "dstep src s = Next (s\<lparr>state := stateMatch\<rparr>)"
    by (auto simp: dstep_def step_LiteralRun_def step_FirstLiteralRun_def index_def Let_def)
  from assms(1) show "no_reuse src s" "state s \<noteq> stateEOF" by (auto simp: no_reuse_def)
qed

text \<open>A match opcode of the encoder, met where an opcode may start.\<close>

lemma decode_match:
  assumes "1 \<le> off" and "off \<le> 49151" and "3 \<le> len" and "len \<le> 264"
    and k: "state s = stateLiteralRun \<or> state s = stateFirstLiteralRun \<or> state s = stateMatchNext"
    and dr: "drop (ip s) src = mat_bytes off len @ q"
    and "off \<le> op s" and "op s + len \<le> length (dst s)"
  shows "\<exists>s'. plain_steps src s s' \<and> state s' = stateLiteralRun
           \<and> ip s' = ip s + length (mat_bytes off len) \<and> op s' = op s + len
           \<and> length (dst s') = length (dst s)
           \<and> take (op s') (dst s') = lz_copy (take (op s) (dst s)) off len"
proof -
  let ?mb = "mat_bytes off len"
  let ?L = "length ?mb"
  have ne: "?mb \<noteq> []" by (rule mat_bytes_not_Nil)
  then have hd: "drop (ip s) src = hd ?mb # (tl ?mb @ q)" using dr by simp
  note s1 = to_Match [OF k hd mat_bytes_tag [OF assms(1,2,3)]]
  let ?m = "s\<lparr>state := stateMatch\<rparr>"
  have "dstep src ?m = copy_back off len (?m\<lparr>ip := ip ?m + ?L, lastMOff := off\<rparr>) \<and> no_reuse src ?m"
    using dstep_Match_mat_bytes [OF assms(1-4), of ?m src q] dr by simp
  then have m: "dstep src ?m = copy_back off len (?m\<lparr>ip := ip ?m + ?L, lastMOff := off\<rparr>)"
    and nr: "no_reuse src ?m" by simp_all
  from copy_back_result [OF assms(1), of "?m\<lparr>ip := ip ?m + ?L, lastMOff := off\<rparr>" len] assms(7,8)
  obtain d where d: "copy_back off len (?m\<lparr>ip := ip ?m + ?L, lastMOff := off\<rparr>) = Next d"
    "state d = stateMatchDone" "ip d = ip s + ?L" "op d = op s + len"
    "length (dst d) = length (dst s)" "take (op d) (dst d) = lz_copy (take (op s) (dst s)) off len"
    by auto
  have len_src: "ip s + ?L \<le> length src"
  proof -
    have "length (drop (ip s) src) = ?L + length q" using dr by simp
    moreover have "0 < ?L" using ne by simp
    ultimately show ?thesis by (simp only: length_drop)
  qed
  have Lpos: "0 < ?L" using ne by simp
  have "length (?mb @ q) = ?L + length q" by simp
  with Lpos have "?L - 1 < length (?mb @ q)" by arith
  then have "src ! (ip s + (?L - 1)) = (?mb @ q) ! (?L - 1)"
    by (rule nth_from_drop [OF dr])
  also have "\<dots> = last ?mb" using ne by (simp add: nth_append last_conv_nth)
  finally have "src ! (ip s + (?L - 1)) = last ?mb" .
  moreover have "ip s + (?L - 1) = ip d - 1" using d(3) Lpos by arith
  ultimately have lb: "src ! (ip d - 1) = last ?mb" by simp
  have "0 < ip d" "ip d \<le> length src" using d(3) Lpos len_src by simp_all
  from dstep_MatchDone [OF d(2) this] lb mat_bytes_last_and_3 [of off len]
  have md: "dstep src d = Next (d\<lparr>state := stateLiteralRun\<rparr>)" by simp
  have "plain_steps src s ?m" using s1 by (auto intro: plain_one)
  moreover have "plain_steps src ?m d" using nr m d(1) by (auto intro: plain_one)
  moreover have "plain_steps src d (d\<lparr>state := stateLiteralRun\<rparr>)"
    using md d(2) by (auto intro: plain_one simp: no_reuse_def)
  ultimately have "plain_steps src s (d\<lparr>state := stateLiteralRun\<rparr>)"
    by (blast intro: plain_steps_trans)
  with d show ?thesis by (intro exI [of _ "d\<lparr>state := stateLiteralRun\<rparr>"]) simp
qed

text \<open>The EOF marker, met where an opcode may start.\<close>

lemma decode_eof:
  assumes k: "state s = stateLiteralRun \<or> state s = stateFirstLiteralRun \<or> state s = stateMatchNext"
    and dr: "drop (ip s) src = [0x11, 0, 0] @ q"
  shows "\<exists>s'. plain_steps src s s' \<and> state s' = stateEOF \<and> ip s' = ip s + 3
           \<and> op s' = op s \<and> dst s' = dst s"
proof -
  from dr have hd: "drop (ip s) src = 0x11 # ([0, 0] @ q)" by simp
  have "16 \<le> unat (0x11 :: byte)" by simp
  note s1 = to_Match [OF k hd this]
  let ?m = "s\<lparr>state := stateMatch\<rparr>"
  have u: "unat (0x11 :: byte) = 17" by simp
  have st: "state ?m = stateMatch" by simp
  from dr have d2: "drop (ip ?m) src = 0x11 # 0 # 0 # q" by simp
  note tag = dstep_Match_tag [OF st d2 u]
  note i = two_offset_bytes [OF tag(2)]
  have "match_M4 src 17 (?m\<lparr>ip := ip ?m + 1\<rparr>)
      = Next (s\<lparr>ip := ip s + 3, state := stateEOF\<rparr>)"
    using i by (simp add: match_M4_def Let_def index_def)
  with tag(1) have m: "dstep src ?m = Next (s\<lparr>ip := ip s + 3, state := stateEOF\<rparr>)" by simp
  have nr: "no_reuse src ?m" using tag(3) by simp
  have "plain_steps src s ?m" using s1 by (auto intro: plain_one)
  moreover have "plain_steps src ?m (s\<lparr>ip := ip s + 3, state := stateEOF\<rparr>)"
    using nr m by (auto intro: plain_one)
  ultimately have "plain_steps src s (s\<lparr>ip := ip s + 3, state := stateEOF\<rparr>)"
    by (blast intro: plain_steps_trans)
  then show ?thesis by (intro exI [of _ "s\<lparr>ip := ip s + 3, state := stateEOF\<rparr>"]) simp
qed

lemma lit_header_short: "1 \<le> n \<Longrightarrow> n \<le> 3 \<Longrightarrow> \<exists>b. lit_header True n = [b] \<and> unat b = n + 17"
proof -
  assume "1 \<le> n" "n \<le> 3"
  then have "n + 17 < 256" by simp
  then have "unat (of_nat (n + 17) :: byte) = n + 17" by (rule unat_byte_of_nat)
  with \<open>n \<le> 3\<close> show ?thesis by (simp add: lit_header_def del: of_nat_add)
qed

lemma lit_header_medium:
  "4 \<le> n \<Longrightarrow> n \<le> 18 \<Longrightarrow> \<exists>b. lit_header isFirst n = [b] \<and> unat b = n - 3"
proof -
  assume n: "4 \<le> n" "n \<le> 18"
  then have "int n - 3 = int (n - 3)" by simp
  then have w: "(word_of_int (int n - 3) :: byte) = of_nat (n - 3)" by (simp only: byte_int)
  from n have "n - 3 < 256" by simp
  then have "unat (of_nat (n - 3) :: byte) = n - 3" by (rule unat_byte_of_nat)
  with n w show ?thesis by (simp add: lit_header_def)
qed

lemma lit_header_long: "18 < n \<Longrightarrow> lit_header isFirst n = 0 # ext_bytes (n - 18)"
  by (simp add: lit_header_def)

text \<open>A literal run of at least four bytes, met in \<open>stateLiteralRun\<close>.\<close>

lemma decode_literals:
  assumes st: "state s = stateLiteralRun" and n: "4 \<le> length lit"
    and dr: "drop (ip s) src = lit_header isFirst (length lit) @ lit @ q"
    and room: "op s + length lit \<le> length (dst s)"
  shows "\<exists>s'. plain_steps src s s' \<and> state s' = stateFirstLiteralRun
           \<and> ip s' = ip s + length (lit_header isFirst (length lit)) + length lit
           \<and> op s' = op s + length lit \<and> length (dst s') = length (dst s)
           \<and> take (op s') (dst s') = take (op s) (dst s) @ lit"
proof -
  have ne: "lit \<noteq> []" using n by auto
  have nr: "no_reuse src s" "state s \<noteq> stateEOF" using st by (simp_all add: no_reuse_def)
  let ?s1 = "s\<lparr>ip := ip s + 1\<rparr>"
  show ?thesis
  proof (cases "length lit \<le> 18")
    case True
    from lit_header_medium [OF n True] obtain b where
      b: "lit_header isFirst (length lit) = [b]" "unat b = length lit - 3" by blast
    from dr b have d: "drop (ip s) src = b # (lit @ q)" by simp
    from drop_Cons_nth [OF d] have i: "ip s < length src" "src ! ip s = b"
      "drop (ip ?s1) src = lit @ q" by simp_all
    have t: "unat b < 16" "unat b \<noteq> 0" "unat b + 3 = length lit" using b(2) n True by simp_all
    have "dstep src s = copy_run src (length lit) stateFirstLiteralRun ?s1"
      using st i t by (simp add: dstep_def step_LiteralRun_def index_def Let_def)
    moreover from copy_run_result [OF _ i(3) ne, of stateFirstLiteralRun] room
    obtain s' where "copy_run src (length lit) stateFirstLiteralRun ?s1 = Next s'"
      "state s' = stateFirstLiteralRun" "ip s' = ip s + 1 + length lit" "op s' = op s + length lit"
      "length (dst s') = length (dst s)" "take (op s') (dst s') = take (op s) (dst s) @ lit"
      by auto
    ultimately show ?thesis using nr b(1)
      by (intro exI [of _ s']) (auto intro: plain_one)
  next
    case False
    define r where "r = length lit - 18"
    have r: "0 < r" "15 + r + 3 = length lit" using False by (simp_all add: r_def)
    have h: "lit_header isFirst (length lit) = 0 # ext_bytes r"
      using False by (simp add: lit_header_long r_def)
    from dr h have d: "drop (ip s) src = 0 # (ext_bytes r @ lit @ q)" by simp
    from drop_Cons_nth [OF d] have i: "ip s < length src" "src ! ip s = 0"
      "drop (ip ?s1) src = ext_bytes r @ (lit @ q)" by simp_all
    let ?s2 = "?s1\<lparr>ip := ip ?s1 + length (ext_bytes r)\<rparr>"
    from ext_len_ext_bytes [OF r(1) i(3), of 15 0]
    have x: "ext_len src 15 0 ?s1 = Some (?s2, length lit - 3)" using r(2) by simp
    have "length lit - 3 + 3 = length lit" using n by simp
    then have "dstep src s = copy_run src (length lit) stateFirstLiteralRun ?s2"
      using st i x by (simp add: dstep_def step_LiteralRun_def index_def Let_def)
    moreover have "drop (ip ?s2) src = lit @ q"
    proof -
      have "drop (ip ?s2) src = drop (length (ext_bytes r)) (drop (ip ?s1) src)"
        by (simp add: add.commute)
      then show ?thesis by (simp only: i(3)) simp
    qed
    from copy_run_result [OF _ this ne, of stateFirstLiteralRun] room
    obtain s' where "copy_run src (length lit) stateFirstLiteralRun ?s2 = Next s'"
      "state s' = stateFirstLiteralRun" "ip s' = ip s + 1 + length (ext_bytes r) + length lit"
      "op s' = op s + length lit"
      "length (dst s') = length (dst s)" "take (op s') (dst s') = take (op s) (dst s) @ lit"
      by auto
    ultimately show ?thesis using nr h
      by (intro exI [of _ s']) (auto intro: plain_one)
  qed
qed

text \<open>The first literal run, met in \<open>stateStart\<close>.\<close>

lemma decode_first_literals:
  assumes st: "state s = stateStart" and ne: "lit \<noteq> []"
    and dr: "drop (ip s) src = lit_header True (length lit) @ lit @ q"
    and room: "op s + length lit \<le> length (dst s)"
  shows "\<exists>s'. plain_steps src s s'
           \<and> state s' = (if length lit \<le> 3 then stateMatchNext else stateFirstLiteralRun)
           \<and> ip s' = ip s + length (lit_header True (length lit)) + length lit
           \<and> op s' = op s + length lit \<and> length (dst s') = length (dst s)
           \<and> take (op s') (dst s') = take (op s) (dst s) @ lit"
proof -
  have nr: "no_reuse src s" "state s \<noteq> stateEOF" using st by (simp_all add: no_reuse_def)
  have n1: "1 \<le> length lit" using ne by (simp add: Suc_leI)
  show ?thesis
  proof (cases "length lit \<le> 3")
    case True
    let ?s1 = "s\<lparr>ip := ip s + 1\<rparr>"
    from lit_header_short [OF n1 True] obtain b where
      b: "lit_header True (length lit) = [b]" "unat b = length lit + 17" by blast
    from dr b have d: "drop (ip s) src = b # (lit @ q)" by simp
    from drop_Cons_nth [OF d] have i: "ip s < length src" "src ! ip s = b"
      "drop (ip ?s1) src = lit @ q" by simp_all
    have t: "17 < unat b" "unat b - 17 = length lit" "length lit < 4" using b(2) n1 True by arith+
    have "dstep src s = copy_run src (length lit) stateMatchNext ?s1"
      using st i t by (simp add: dstep_def step_Start_def index_def Let_def)
    moreover from copy_run_result [OF _ i(3) ne, of stateMatchNext] room
    obtain s' where "copy_run src (length lit) stateMatchNext ?s1 = Next s'"
      "state s' = stateMatchNext" "ip s' = ip s + 1 + length lit" "op s' = op s + length lit"
      "length (dst s') = length (dst s)" "take (op s') (dst s') = take (op s) (dst s) @ lit"
      by auto
    ultimately show ?thesis using nr b(1) True
      by (intro exI [of _ s']) (auto intro: plain_one)
  next
    case False
    then have n4: "4 \<le> length lit" by simp
    have "\<exists>b r. lit_header True (length lit) = b # r \<and> unat b \<le> 17"
    proof (cases "length lit \<le> 18")
      case True
      from lit_header_medium [OF n4 True, of True] True show ?thesis by auto
    next
      case False
      then show ?thesis by (simp add: lit_header_long)
    qed
    then obtain b r where b: "lit_header True (length lit) = b # r" "unat b \<le> 17" by blast
    from dr b have d: "drop (ip s) src = b # (r @ lit @ q)" by simp
    from drop_Cons_nth [OF d] have i: "ip s < length src" "src ! ip s = b" by simp_all
    let ?l = "s\<lparr>state := stateLiteralRun\<rparr>"
    have "dstep src s = Next ?l"
      using st i b(2) by (simp add: dstep_def step_Start_def index_def Let_def)
    with nr have p: "plain_steps src s ?l" by (auto intro: plain_one)
    from decode_literals [of ?l lit src True q] n4 dr room obtain s' where
      "plain_steps src ?l s'" "state s' = stateFirstLiteralRun"
      "ip s' = ip s + length (lit_header True (length lit)) + length lit"
      "op s' = op s + length lit" "length (dst s') = length (dst s)"
      "take (op s') (dst s') = take (op s) (dst s) @ lit"
      by auto
    with p False show ?thesis
      by (intro exI [of _ s']) (auto intro: plain_steps_trans)
  qed
qed

section \<open>Decoding a sequence of emissions\<close>

text \<open>
  \<open>expand out e\<close> is the output after the emission \<open>e\<close>, given the output \<open>out\<close> before it.
  \<open>wf_toks k n es\<close> says that the emissions \<open>es\<close> can follow one another when the decoder
  stands in state \<open>k\<close> with \<open>n\<close> bytes of output: the first literal run comes first and
  only there, a later literal run follows a match and has at least four bytes, and a match
  has 3 to 264 bytes at an offset between 1 and the output produced so far (at most 49151).
\<close>

fun tok_len :: "emission \<Rightarrow> nat" where
  "tok_len (Literals lit isFirst) = length lit"
| "tok_len (Match off len) = nat len"

fun expand :: "byte list \<Rightarrow> emission \<Rightarrow> byte list" where
  "expand out (Literals lit isFirst) = out @ lit"
| "expand out (Match off len) = lz_copy out (nat off) (nat len)"

definition ready :: "dstate \<Rightarrow> bool" where
  "ready k \<longleftrightarrow> k = stateLiteralRun \<or> k = stateFirstLiteralRun \<or> k = stateMatchNext"

fun wf_toks :: "dstate \<Rightarrow> nat \<Rightarrow> emission list \<Rightarrow> bool" where
  "wf_toks k n [] = ready k"
| "wf_toks k n (Literals lit isFirst # es) =
     (lit \<noteq> [] \<and>
      (if k = stateStart
       then isFirst
            \<and> wf_toks (if length lit \<le> 3 then stateMatchNext else stateFirstLiteralRun)
                 (n + length lit) es
       else k = stateLiteralRun \<and> \<not> isFirst \<and> 4 \<le> length lit
            \<and> wf_toks stateFirstLiteralRun (n + length lit) es))"
| "wf_toks k n (Match off len # es) =
     (ready k \<and> 1 \<le> off \<and> off \<le> int n \<and> off \<le> 49151 \<and> 3 \<le> len \<and> len \<le> 264
      \<and> wf_toks stateLiteralRun (n + nat len) es)"

lemma drop_append_eq: "drop i xs = a @ b \<Longrightarrow> drop (i + length a) xs = b"
  by (metis add.commute append_eq_conv_conj drop_drop)

lemma length_foldl_expand:
  "length (foldl expand out es) = length out + sum_list (map tok_len es)"
proof (induction es arbitrary: out)
  case Nil
  then show ?case by simp
next
  case (Cons e es)
  then show ?case by (cases e) (simp_all add: length_lz_copy)
qed

lemma decode_toks:
  "wf_toks k n es \<Longrightarrow> state s = k \<Longrightarrow> op s = n
     \<Longrightarrow> drop (ip s) src = concat (map tok_bytes es) @ [0x11, 0, 0] @ q
     \<Longrightarrow> n + sum_list (map tok_len es) \<le> length (dst s)
     \<Longrightarrow> \<exists>s'. plain_steps src s s' \<and> state s' = stateEOF \<and> length (dst s') = length (dst s)
           \<and> op s' = n + sum_list (map tok_len es)
           \<and> take (op s') (dst s') = foldl expand (take n (dst s)) es"
proof (induction es arbitrary: k n s)
  case Nil
  then have "state s = stateLiteralRun \<or> state s = stateFirstLiteralRun \<or> state s = stateMatchNext"
    by (simp add: ready_def)
  from decode_eof [OF this, of src q] Nil.prems show ?case by auto
next
  case (Cons e es)
  show ?case
  proof (cases e)
    case (Literals lit isFirst)
    let ?h = "lit_header isFirst (length lit)"
    from Cons.prems(4) Literals
    have dr: "drop (ip s) src = ?h @ lit @ (concat (map tok_bytes es) @ [0x11, 0, 0] @ q)"
      by simp
    then have dr': "drop (ip s) src = (?h @ lit) @ (concat (map tok_bytes es) @ [0x11, 0, 0] @ q)"
      by simp
    from Cons.prems(1) Literals have ne: "lit \<noteq> []" by simp
    from Cons.prems(3,5) Literals have room: "op s + length lit \<le> length (dst s)" by simp
    define k' where "k' = (if k = stateStart \<and> length lit \<le> 3 then stateMatchNext
                           else stateFirstLiteralRun)"
    have wf': "wf_toks k' (n + length lit) es"
      using Cons.prems(1) Literals by (auto simp: k'_def split: if_splits)
    have "\<exists>s1. plain_steps src s s1 \<and> state s1 = k'
           \<and> ip s1 = ip s + length ?h + length lit
           \<and> op s1 = op s + length lit \<and> length (dst s1) = length (dst s)
           \<and> take (op s1) (dst s1) = take (op s) (dst s) @ lit"
    proof (cases "k = stateStart")
      case True
      with Cons.prems(1) Literals have f: "isFirst" by simp
      from True Cons.prems(2) have st: "state s = stateStart" by simp
      from decode_first_literals [OF st ne dr [unfolded f [THEN eqTrueI]] room] f True
      show ?thesis by (simp add: k'_def)
    next
      case False
      with Cons.prems(1,2) Literals have st: "state s = stateLiteralRun" and n4: "4 \<le> length lit"
        by simp_all
      from decode_literals [OF st n4 dr room] False show ?thesis by (simp add: k'_def)
    qed
    then obtain s1 where s1: "plain_steps src s s1" "state s1 = k'"
      "ip s1 = ip s + length ?h + length lit" "op s1 = op s + length lit"
      "length (dst s1) = length (dst s)" "take (op s1) (dst s1) = take (op s) (dst s) @ lit"
      by blast
    have d1: "drop (ip s1) src = concat (map tok_bytes es) @ [0x11, 0, 0] @ q"
      using drop_append_eq [OF dr'] s1(3) by (simp add: add.assoc)
    have room1: "n + length lit + sum_list (map tok_len es) \<le> length (dst s1)"
      using Cons.prems(5) Literals s1(5) by simp
    from Cons.IH [OF wf' s1(2) _ d1 room1] s1(4) Cons.prems(3)
    obtain s' where s': "plain_steps src s1 s'" "state s' = stateEOF"
      "length (dst s') = length (dst s1)" "op s' = n + length lit + sum_list (map tok_len es)"
      "take (op s') (dst s') = foldl expand (take (n + length lit) (dst s1)) es"
      by auto
    from s1(4,6) Cons.prems(3) have "take (n + length lit) (dst s1) = take n (dst s) @ lit" by simp
    with s' s1 Literals show ?thesis
      by (intro exI [of _ s']) (auto intro: plain_steps_trans)
  next
    case (Match off len)
    define o' l' where "o' = nat off" and "l' = nat len"
    from Cons.prems(1) Match have v: "1 \<le> o'" "o' \<le> 49151" "3 \<le> l'" "l' \<le> 264" "o' \<le> n"
      and rk: "ready k" and wf': "wf_toks stateLiteralRun (n + l') es"
      by (auto simp: o'_def l'_def)
    from rk Cons.prems(2)
    have k: "state s = stateLiteralRun \<or> state s = stateFirstLiteralRun \<or> state s = stateMatchNext"
      by (simp add: ready_def)
    from Cons.prems(4) Match
    have dr: "drop (ip s) src = mat_bytes o' l' @ (concat (map tok_bytes es) @ [0x11, 0, 0] @ q)"
      by (simp add: o'_def l'_def)
    from Cons.prems(3,5) Match v have room: "o' \<le> op s" "op s + l' \<le> length (dst s)"
      by (simp_all add: l'_def)
    from decode_match [OF v(1-4) k dr room] obtain s1 where
      s1: "plain_steps src s s1" "state s1 = stateLiteralRun"
      "ip s1 = ip s + length (mat_bytes o' l')" "op s1 = op s + l'"
      "length (dst s1) = length (dst s)"
      "take (op s1) (dst s1) = lz_copy (take (op s) (dst s)) o' l'"
      by blast
    have d1: "drop (ip s1) src = concat (map tok_bytes es) @ [0x11, 0, 0] @ q"
      using drop_append_eq [OF dr] s1(3) by simp
    have room1: "n + l' + sum_list (map tok_len es) \<le> length (dst s1)"
      using Cons.prems(5) Match s1(5) by (simp add: l'_def)
    from Cons.IH [OF wf' s1(2) _ d1 room1] s1(4) Cons.prems(3)
    obtain s' where s': "plain_steps src s1 s'" "state s' = stateEOF"
      "length (dst s') = length (dst s1)" "op s' = n + l' + sum_list (map tok_len es)"
      "take (op s') (dst s') = foldl expand (take (n + l') (dst s1)) es"
      by auto
    from s1(4,6) Cons.prems(3) have "take (n + l') (dst s1) = lz_copy (take n (dst s)) o' l'" by simp
    with s' s1 Match show ?thesis
      by (intro exI [of _ s']) (auto intro: plain_steps_trans simp: o'_def l'_def)
  qed
qed

text \<open>
  The whole call on a stream of emissions closed by the EOF marker: it succeeds with the
  expansion of the emissions, and no loop head on the way takes the reuse path.
\<close>

lemma Decompress_toks:
  assumes "wf_toks stateStart 0 es" and "sum_list (map tok_len es) \<le> length d"
  shows "\<exists>d'. Decompress (concat (map tok_bytes es) @ [0x11, 0, 0]) d
                 = Return (sum_list (map tok_len es)) None d'
           \<and> length d' = length d
           \<and> take (sum_list (map tok_len es)) d' = foldl expand [] es"
proof -
  let ?src = "concat (map tok_bytes es) @ [0x11, 0, 0]"
  let ?s = "\<lparr>ip = 0, op = 0, lastMOff = 0, state = stateStart, dst = d\<rparr>"
  from decode_toks [OF assms(1), of ?s ?src "[]"] assms(2)
  obtain s' where s': "plain_steps ?src ?s s'" "state s' = stateEOF" "length (dst s') = length d"
    "op s' = sum_list (map tok_len es)" "take (op s') (dst s') = foldl expand [] es"
    by auto
  from plain_steps_run [OF s'(1)] s'(2) have "run ?src ?s = Return (op s') None (dst s')"
    by (simp add: run.simps [of ?src s'])
  with s' show ?thesis by (simp add: Decompress_def)
qed

section \<open>The hash separates the fourth byte\<close>

text \<open>
  Two four-byte windows that agree in their first three bytes and in their hash agree in
  the fourth byte too: the product with the odd constant is a bijection on 32-bit words,
  its low 24 bits are fixed by the three common bytes, and the hash keeps its top 14 bits.
\<close>

definition pack :: "byte \<Rightarrow> byte \<Rightarrow> byte \<Rightarrow> byte \<Rightarrow> 32 word" where
  "pack a b c x = ucast a OR push_bit 8 (ucast b) OR push_bit 16 (ucast c) OR push_bit 24 (ucast x)"

lemma take_bit_pack: "take_bit 24 (pack a b c x) = take_bit 24 (pack a b c y)"
  by (rule bit_eqI) (auto simp: pack_def bit_simps)

lemma top_byte_pack: "ucast (drop_bit 24 (pack a b c x)) = x"
  by (rule bit_eqI) (auto simp: pack_def bit_simps dest: bit_imp_le_length)

lemma hash_multiplier_inverse: "(0x1e35a7bd :: 32 word) * 0x22b54b95 = 1"
  by simp

lemma hash_mask_id: "drop_bit 18 (w :: 32 word) AND 0x3fff = drop_bit 18 w"
proof -
  have "drop_bit 18 w AND mask 14 = drop_bit 18 w"
    by (rule bit_eqI) (auto simp: bit_simps dest: bit_imp_le_length)
  then show ?thesis by (simp add: mask_eq_exp_minus_1)
qed

lemma word_take_bit_mult:
  "take_bit n (take_bit n a * take_bit n b) = take_bit n (a * b :: 32 word)"
  by transfer (simp add: take_bit_mult take_bit_take_bit min_def)

lemma pack_hash_inj:
  assumes "drop_bit 18 (pack a b c x * 0x1e35a7bd) AND 0x3fff
           = drop_bit 18 (pack a b c y * 0x1e35a7bd) AND (0x3fff :: 32 word)"
  shows "x = y"
proof -
  let ?w = "pack a b c x * 0x1e35a7bd" and ?w' = "pack a b c y * 0x1e35a7bd"
  from assms have hi: "drop_bit 18 ?w = drop_bit 18 ?w'" by (simp only: hash_mask_id)
  have "take_bit 24 ?w = take_bit 24 (take_bit 24 (pack a b c x) * take_bit 24 0x1e35a7bd)"
    by (simp only: word_take_bit_mult)
  also have "\<dots> = take_bit 24 (take_bit 24 (pack a b c y) * take_bit 24 0x1e35a7bd)"
    by (simp only: take_bit_pack [of a b c x y])
  also have "\<dots> = take_bit 24 ?w'" by (simp only: word_take_bit_mult)
  finally have lo: "take_bit 24 ?w = take_bit 24 ?w'" .
  have "?w = ?w'"
  proof (rule bit_eqI)
    fix n
    show "bit ?w n \<longleftrightarrow> bit ?w' n"
    proof (cases "n < 24")
      case True
      from lo have "bit (take_bit 24 ?w) n \<longleftrightarrow> bit (take_bit 24 ?w') n" by simp
      with True show ?thesis by (simp add: bit_take_bit_iff)
    next
      case False
      then have n: "n = (n - 18) + 18" by simp
      from hi have "bit (drop_bit 18 ?w) (n - 18) \<longleftrightarrow> bit (drop_bit 18 ?w') (n - 18)" by simp
      then show ?thesis using n by (simp add: bit_drop_bit_eq add.commute)
    qed
  qed
  then have "?w * 0x22b54b95 = ?w' * 0x22b54b95" by simp
  then have "pack a b c x * (0x1e35a7bd * 0x22b54b95) = pack a b c y * (0x1e35a7bd * 0x22b54b95)"
    by (simp only: mult.assoc)
  then have "pack a b c x = pack a b c y" by (simp only: hash_multiplier_inverse mult_1_right)
  then have "(ucast (drop_bit 24 (pack a b c x)) :: byte) = ucast (drop_bit 24 (pack a b c y))"
    by simp
  then show ?thesis by (simp only: top_byte_pack)
qed

lemma hash_pack:
  "p + 4 \<le> length src \<Longrightarrow>
     hash src p = unat (drop_bit 18 (pack (src ! p) (src ! (p + 1)) (src ! (p + 2)) (src ! (p + 3))
                                       * 0x1e35a7bd) AND 0x3fff)"
  by (simp add: hash_def pack_def hashBits_def hashMask_def Let_def)

lemma hash_fourth_byte:
  assumes "p + 4 \<le> length src" and "r + 4 \<le> length src" and "hash src p = hash src r"
    and "src ! r = src ! p" and "src ! (r + 1) = src ! (p + 1)" and "src ! (r + 2) = src ! (p + 2)"
  shows "src ! (r + 3) = src ! (p + 3)"
proof -
  from assms(3) have "unat (drop_bit 18 (pack (src ! p) (src ! (p + 1)) (src ! (p + 2)) (src ! (p + 3))
                                       * 0x1e35a7bd) AND 0x3fff)
      = unat (drop_bit 18 (pack (src ! p) (src ! (p + 1)) (src ! (p + 2)) (src ! (r + 3))
                                       * 0x1e35a7bd) AND 0x3fff)"
    by (simp only: hash_pack [OF assms(1)] hash_pack [OF assms(2)] assms(4,5,6))
  then have "drop_bit 18 (pack (src ! p) (src ! (p + 1)) (src ! (p + 2)) (src ! (p + 3))
                                       * 0x1e35a7bd) AND 0x3fff
      = drop_bit 18 (pack (src ! p) (src ! (p + 1)) (src ! (p + 2)) (src ! (r + 3))
                                       * 0x1e35a7bd) AND 0x3fff"
    by (rule word_unat_eq_iff [THEN iffD2])
  from pack_hash_inj [OF this] show ?thesis by simp
qed

section \<open>The loops of the encoder\<close>

lemma match_length_equal:
  "match_length src ref i m maxLen = Some r \<Longrightarrow>
     (\<forall>k. m \<le> k \<and> k < r \<longrightarrow> src ! (ref + k) = src ! (i + k))"
proof (induction src ref i m maxLen rule: match_length.induct)
  case (1 src ref i m maxLen)
  show ?case
  proof (cases "m < maxLen \<and> src ! (ref + m) = src ! (i + m)")
    case True
    with "1.prems" have ok: "ref + m < length src \<and> i + m < length src"
      and rec: "match_length src ref i (m + 1) maxLen = Some r"
      by (auto simp: match_length.simps [of src ref i m maxLen] split: if_splits)
    from "1.IH" [OF _ ok _ rec] True
    have ih: "\<forall>k. m + 1 \<le> k \<and> k < r \<longrightarrow> src ! (ref + k) = src ! (i + k)" by simp
    show ?thesis
    proof (intro allI impI)
      fix k assume k: "m \<le> k \<and> k < r"
      show "src ! (ref + k) = src ! (i + k)"
      proof (cases "k = m")
        case True
        with \<open>m < maxLen \<and> src ! (ref + m) = src ! (i + m)\<close> show ?thesis by simp
      next
        case False
        with k ih show ?thesis by simp
      qed
    qed
  next
    case False
    with "1.prems" have "r = m"
      by (auto simp: match_length.simps [of src ref i m maxLen] split: if_splits)
    then show ?thesis by auto
  qed
qed

lemma match_length_total:
  "ref \<le> i \<Longrightarrow> i + maxLen \<le> length src \<Longrightarrow> \<exists>r. match_length src ref i m maxLen = Some r"
proof (induction src ref i m maxLen rule: match_length.induct)
  case (1 src ref i m maxLen)
  show ?case
  proof (cases "m < maxLen")
    case True
    with "1.prems" have ok: "ref + m < length src \<and> i + m < length src" by simp
    show ?thesis
    proof (cases "src ! (ref + m) = src ! (i + m)")
      case eq: True
      from "1.IH" [OF True ok eq "1.prems"] True ok eq show ?thesis
        by (simp add: match_length.simps [of src ref i m maxLen])
    next
      case False
      with True ok show ?thesis by (simp add: match_length.simps [of src ref i m maxLen])
    qed
  next
    case False
    then show ?thesis by (simp add: match_length.simps [of src ref i m maxLen])
  qed
qed

lemma match_length_four:
  assumes "match_length src ref i 3 maxLen = Some r" and "3 < maxLen"
    and "src ! (ref + 3) = src ! (i + 3)"
  shows "4 \<le> r"
proof -
  from assms have "match_length src ref i 4 maxLen = Some r"
    by (auto simp: match_length.simps [of src ref i 3 maxLen] split: if_splits)
  from match_length_bounds [OF this] show ?thesis by simp
qed

text \<open>
  The hash table holds, in every slot, a negative number or a position of the input
  whose four-byte window has that slot's hash.
\<close>

definition table_ok :: "byte list \<Rightarrow> (nat \<Rightarrow> int) \<Rightarrow> bool" where
  "table_ok src tbl \<longleftrightarrow>
     (\<forall>h. 0 \<le> tbl h \<longrightarrow> nat (tbl h) + 4 \<le> length src \<and> hash src (nat (tbl h)) = h)"

lemma table_ok_init: "table_ok src (\<lambda>_. - maxOffset)"
  by (simp add: table_ok_def maxOffset_def)

lemma table_ok_update:
  "table_ok src tbl \<Longrightarrow> i + 4 \<le> length src \<Longrightarrow> table_ok src (tbl(hash src i := int i))"
  by (simp add: table_ok_def)

lemma table_ok_refresh:
  "table_ok src tbl \<Longrightarrow> table_ok src (refresh src i ipEnd tbl)"
proof (induction src i ipEnd tbl rule: refresh.induct)
  case (1 src i ipEnd tbl)
  show ?case
  proof (cases "i < ipEnd \<and> int i < int (length src) - 4")
    case True
    then have "i + 4 \<le> length src" by simp
    note ih = "1.IH" [OF True table_ok_update [OF "1.prems" this]]
    have "refresh src i ipEnd tbl = refresh src (i + 1) ipEnd (tbl(hash src i := int i))"
      using True by (subst refresh.simps) simp
    then show ?thesis using ih by (simp only:)
  next
    case False
    then have "refresh src i ipEnd tbl = tbl" by (subst refresh.simps) (simp only: if_False)
    with "1.prems" show ?thesis by (simp only:)
  qed
qed

text \<open>A match found in the input is reproduced by the forward copy on the output.\<close>

lemma lz_copy_take:
  "1 \<le> off \<Longrightarrow> off \<le> i \<Longrightarrow> i + m \<le> length src
     \<Longrightarrow> (\<forall>k < m. src ! (i - off + k) = src ! (i + k))
     \<Longrightarrow> lz_copy (take i src) off m = take (i + m) src"
proof (induction m arbitrary: i)
  case 0
  then show ?case by simp
next
  case (Suc m)
  from Suc.prems have i: "i < length src" by simp
  from Suc.prems(4) have "src ! (i - off + 0) = src ! (i + 0)" by blast
  then have e0: "src ! (i - off) = src ! i" by simp
  have "take i src ! (length (take i src) - off) = src ! (i - off)"
    using i Suc.prems(1,2) by simp
  with e0 i have step: "take i src @ [take i src ! (length (take i src) - off)] = take (i + 1) src"
    by (simp add: take_Suc_conv_app_nth)
  have sh: "\<forall>k < m. src ! (i + 1 - off + k) = src ! (i + 1 + k)"
  proof (intro allI impI)
    fix k assume "k < m"
    then have "Suc k < Suc m" by simp
    with Suc.prems(4) have "src ! (i - off + Suc k) = src ! (i + Suc k)" by blast
    moreover have "i + 1 - off + k = i - off + Suc k" using Suc.prems(2) by simp
    ultimately show "src ! (i + 1 - off + k) = src ! (i + 1 + k)" by simp
  qed
  from Suc.IH [of "i + 1"] Suc.prems sh have "lz_copy (take (i + 1) src) off m = take (i + 1 + m) src"
    by simp
  with step show ?case by simp
qed

section \<open>Sequences of emissions\<close>

text \<open>
  \<open>run_toks k n es\<close> follows the emissions \<open>es\<close> from the decoder state \<open>k\<close> with \<open>n\<close> bytes
  of output and returns the state and output length after them, or \<open>None\<close> when an
  emission cannot stand where it does.
\<close>

fun run_toks :: "dstate \<Rightarrow> nat \<Rightarrow> emission list \<Rightarrow> (dstate \<times> nat) option" where
  "run_toks k n [] = Some (k, n)"
| "run_toks k n (Literals lit isFirst # es) =
     (if lit \<noteq> [] \<and> (k = stateStart \<and> isFirst \<or> k = stateLiteralRun \<and> \<not> isFirst \<and> 4 \<le> length lit)
      then run_toks (if k = stateStart \<and> length lit \<le> 3 then stateMatchNext else stateFirstLiteralRun)
             (n + length lit) es
      else None)"
| "run_toks k n (Match off len # es) =
     (if ready k \<and> 1 \<le> off \<and> off \<le> int n \<and> off \<le> 49151 \<and> 3 \<le> len \<and> len \<le> 264
      then run_toks stateLiteralRun (n + nat len) es
      else None)"

lemma wf_toks_run_toks:
  "wf_toks k n es \<longleftrightarrow> (\<exists>k' n'. run_toks k n es = Some (k', n') \<and> ready k')"
proof (induction es arbitrary: k n)
  case Nil
  then show ?case by simp
next
  case (Cons e es)
  show ?case
  proof (cases e)
    case (Literals lit isFirst)
    then show ?thesis using Cons.IH by (auto simp: ready_def)
  next
    case (Match off len)
    then show ?thesis using Cons.IH by auto
  qed
qed

lemma run_toks_append:
  "run_toks k n (es @ es') =
     (case run_toks k n es of None \<Rightarrow> None | Some (k', n') \<Rightarrow> run_toks k' n' es')"
proof (induction es arbitrary: k n)
  case Nil
  then show ?case by simp
next
  case (Cons e es)
  then show ?case by (cases e) auto
qed

lemma run_toks_later_literals:
  "run_toks k n es = Some r \<Longrightarrow> Literals lit False \<in> set es \<Longrightarrow> 4 \<le> length lit"
proof (induction es arbitrary: k n)
  case Nil
  then show ?case by simp
next
  case (Cons e es)
  show ?case
  proof (cases e)
    case (Literals lit' isFirst)
    with Cons.prems show ?thesis
      by (auto split: if_splits dest: Cons.IH)
  next
    case (Match off len)
    with Cons.prems show ?thesis
      by (auto split: if_splits dest: Cons.IH)
  qed
qed

lemma run_toks_matches:
  "run_toks k n es = Some r \<Longrightarrow> Match off len \<in> set es
     \<Longrightarrow> 1 \<le> off \<and> off \<le> 49151 \<and> 3 \<le> len \<and> len \<le> 264"
proof (induction es arbitrary: k n)
  case Nil
  then show ?case by simp
next
  case (Cons e es)
  show ?case
  proof (cases e)
    case (Literals lit' isFirst)
    with Cons.prems show ?thesis
      by (auto split: if_splits dest: Cons.IH)
  next
    case (Match off' len')
    with Cons.prems show ?thesis
      by (auto split: if_splits dest: Cons.IH)
  qed
qed

lemma run_toks_length:
  "run_toks k n es = Some (k', n') \<Longrightarrow> n' = n + sum_list (map tok_len es)"
proof (induction es arbitrary: k n)
  case Nil
  then show ?case by simp
next
  case (Cons e es)
  show ?case
  proof (cases e)
    case (Literals lit' isFirst)
    with Cons.prems show ?thesis by (auto split: if_splits dest!: Cons.IH)
  next
    case (Match off' len')
    with Cons.prems show ?thesis by (auto split: if_splits dest!: Cons.IH)
  qed
qed

section \<open>A successful emitter call had room and wrote its opcode\<close>

lemma lit_successors_Inr:
  "lit_successors r n d = Inr (m, d') \<Longrightarrow> m = n + length (ext_bytes r) \<and> m \<le> length d"
proof (induction r n d rule: lit_successors.induct)
  case (1 r n d)
  show ?case
  proof (cases "r > 255")
    case True
    with "1.prems" have n: "\<not> length d \<le> n"
      and rec: "lit_successors (r - 255) (n + 1) (d[n := 0]) = Inr (m, d')"
      by (auto simp: lit_successors.simps [of r n d] split: if_splits)
    from "1.IH" [OF True n rec] True show ?thesis
      by (simp add: ext_bytes.simps [of r])
  next
    case False
    with "1.prems" show ?thesis
      by (auto simp: lit_successors.simps [of r n d] ext_bytes.simps [of r] split: if_splits)
  qed
qed

lemma lit_successors_Inl:
  "lit_successors r n d \<noteq> Inl (Return m None d')"
proof (induction r n d rule: lit_successors.induct)
  case (1 r n d)
  show ?case
  proof (cases "r > 255 \<and> \<not> length d \<le> n")
    case True
    with "1.IH" have "lit_successors (r - 255) (n + 1) (d[n := 0]) \<noteq> Inl (Return m None d')"
      by simp
    with True show ?thesis by (simp add: lit_successors.simps [of r n d])
  next
    case False
    then show ?thesis by (auto simp: lit_successors.simps [of r n d])
  qed
qed

lemma copy_lit_success: "copy_lit lit n d = Return m None d' \<Longrightarrow> n + length lit \<le> length d"
  by (auto simp: copy_lit_def split: if_splits)

lemma emitLiterals_success_room:
  assumes "emitLiterals lit d isFirst = Return n None d'" and "lit \<noteq> []"
  shows "length (lit_header isFirst (length lit)) + length lit \<le> length d"
proof (cases "length lit \<le> 18")
  case True
  then have h: "length (lit_header isFirst (length lit)) = 1" by (simp add: length_lit_header)
  from assms True have "1 + length lit \<le> length d"
    by (auto simp: emitLiterals_def Let_def store_def split: if_splits dest!: copy_lit_success)
  with h show ?thesis by simp
next
  case False
  define r where "r = length lit - 18"
  have h: "lit_header isFirst (length lit) = 0 # ext_bytes r"
    using False by (simp add: lit_header_long r_def)
  show ?thesis
  proof (cases "isFirst \<and> length lit \<le> 238")
    case True
    then have "r \<le> 255" unfolding r_def by arith
    then have e: "ext_bytes r = [of_nat r]" by (simp add: ext_bytes.simps [of r])
    from assms True False have "2 + length lit \<le> length d"
      by (auto simp: emitLiterals_def Let_def split: if_splits)
    with h e show ?thesis by simp
  next
    case nf: False
    from assms False nf obtain m d2 where
      s: "lit_successors r 1 (d[0 := 0]) = Inr (m, d2)" and c: "copy_lit lit m d2 = Return n None d'"
      by (auto simp: emitLiterals_def Let_def store_def r_def lit_successors_Inl
          split: if_splits sum.splits)
    from lit_successors_Inr [OF s] have m: "m = 1 + length (ext_bytes r)" by simp
    have "length d2 = length d"
    proof -
      from lit_successors_Inr [OF s] have "m \<le> length d" by simp
      with lit_successors_ok [of 1 r "d[0 := 0]"] m s show ?thesis by auto
    qed
    with copy_lit_success [OF c] m h show ?thesis by simp
  qed
qed

lemma emitMatch_success_room: "emitMatch d off len = Return n None d' \<Longrightarrow> 4 \<le> length d"
  by (auto simp: emitMatch_def split: if_splits)

lemma on_tail_success:
  "on_tail d n f = Return m None d' \<Longrightarrow>
     n \<le> length d \<and> (\<exists>d1. f (drop n d) = Return m None d1 \<and> d' = take n d @ d1)"
  by (auto simp: on_tail_def split: if_splits result.splits)

text \<open>The two emitter calls of the loop, when they succeed.\<close>

lemma emitLiterals_on_tail:
  assumes "on_tail d n (\<lambda>x. emitLiterals lit x isFirst) = Return m None d'" and "lit \<noteq> []"
  shows "m = length (tok_bytes (Literals lit isFirst)) \<and> n + m \<le> length d
         \<and> d' = take n d @ tok_bytes (Literals lit isFirst) @ drop (n + m) d"
proof -
  from on_tail_success [OF assms(1)] obtain d1 where
    n: "n \<le> length d" and e: "emitLiterals lit (drop n d) isFirst = Return m None d1"
    and d': "d' = take n d @ d1" by blast
  from emitLiterals_success_room [OF e assms(2)]
  have room: "length (lit_header isFirst (length lit)) + length lit \<le> length (drop n d)" .
  from emitLiterals_ok [OF assms(2) room] e
  have "m = length (lit_header isFirst (length lit)) + length lit"
    "d1 = lit_header isFirst (length lit) @ lit @ drop m (drop n d)"
    by simp_all
  with n room d' show ?thesis by (simp add: add.commute)
qed

lemma emitMatch_on_tail:
  assumes "on_tail d n (\<lambda>x. emitMatch x (int off) (int len)) = Return m None d'"
    and "1 \<le> off" and "off \<le> 49151" and "3 \<le> len" and "len \<le> 264"
  shows "m = length (mat_bytes off len) \<and> n + m \<le> length d \<and> n + 4 \<le> length d
         \<and> d' = take n d @ mat_bytes off len @ drop (n + m) d"
proof -
  from on_tail_success [OF assms(1)] obtain d1 where
    n: "n \<le> length d" and e: "emitMatch (drop n d) (int off) (int len) = Return m None d1"
    and d': "d' = take n d @ d1" by blast
  from emitMatch_success_room [OF e] have room: "4 \<le> length (drop n d)" .
  from emitMatch_ok [OF assms(2-5) room] e
  have m: "m = length (mat_bytes off len)" "d1 = mat_bytes off len @ drop m (drop n d)"
    by simp_all
  have "length (mat_bytes off len) \<le> 4" by (simp add: length_mat_bytes)
  with n room have "n + length (mat_bytes off len) \<le> length d" "n + 4 \<le> length d"
    by (simp_all only: length_drop)
  with n d' m show ?thesis by (simp add: add.commute)
qed

section \<open>The invariant of the encoder loop\<close>

text \<open>
  At every loop head: the cursors are in order; the hash table is sound; the emissions so
  far can follow one another and expand to the input up to \<open>litStart\<close>; after the first
  emission the rest of the input from \<open>litStart\<close> is empty or has at least four bytes; the
  destination holds the opcodes of the emissions; and the output is at most 17/16 of the
  input consumed.
\<close>

definition enc_inv :: "byte list \<Rightarrow> enc \<Rightarrow> bool" where
  "enc_inv src s \<longleftrightarrow>
     litStart s \<le> c_ip s \<and> c_ip s \<le> length src \<and> c_op s \<le> length (c_dst s)
     \<and> table_ok src (hashTable s)
     \<and> run_toks stateStart 0 (trace s)
         = Some (if isFirstOutput s then stateStart else stateLiteralRun, litStart s)
     \<and> (isFirstOutput s \<longrightarrow> trace s = [])
     \<and> (\<not> isFirstOutput s \<longrightarrow> litStart s = length src \<or> litStart s + 4 \<le> length src)
     \<and> foldl expand [] (trace s) = take (litStart s) src
     \<and> take (c_op s) (c_dst s) = concat (map tok_bytes (trace s))
     \<and> 16 * c_op s \<le> 17 * litStart s"

lemma enc_inv_init:
  "enc_inv src \<lparr>c_ip = 0, c_op = 0, litStart = 0, isFirstOutput = True,
                 hashTable = (\<lambda>_. - maxOffset), c_dst = d, trace = []\<rparr>"
  by (simp add: enc_inv_def table_ok_init)

lemma emit_match_at_CNext:
  assumes "emit_match_at src s offset matchLen = CNext s'"
  shows "\<exists>n d1 m d2.
     (if c_ip s - litStart s > 0
      then c_ip s \<le> length src
           \<and> on_tail (c_dst s) (c_op s)
                (\<lambda>d. emitLiterals (take (c_ip s - litStart s) (drop (litStart s) src)) d
                       (isFirstOutput s)) = Return n None d1
      else n = 0 \<and> d1 = c_dst s)
     \<and> on_tail d1 (c_op s + n) (\<lambda>d. emitMatch d offset (int matchLen)) = Return m None d2
     \<and> c_op s' = c_op s + n + m \<and> c_dst s' = d2 \<and> \<not> isFirstOutput s'
     \<and> c_ip s' = c_ip s + matchLen \<and> litStart s' = c_ip s + matchLen
     \<and> hashTable s' = refresh src (c_ip s + 1) (c_ip s + matchLen) (hashTable s)
     \<and> trace s' = trace s
          @ (if c_ip s - litStart s > 0
             then [Literals (take (c_ip s - litStart s) (drop (litStart s) src)) (isFirstOutput s)]
             else [])
          @ [Match offset (int matchLen)]"
  using assms
  by (auto simp: emit_match_at_def Let_def split: result.splits option.splits if_splits)

lemma accounting_step:
  assumes "16 * a \<le> 17 * b" and "4 \<le> ml" and "m < ml"
    and "0 < n \<Longrightarrow> k = length (lit_header f n) + n" and "n = 0 \<Longrightarrow> k = 0"
  shows "16 * (a + k + m) \<le> 17 * (b + n + ml)"
proof (cases "n = 0")
  case True
  with assms show ?thesis by simp
next
  case False
  then have k: "k = length (lit_header f n) + n" using assms(4) by simp
  show ?thesis
  proof (cases "n \<le> 18")
    case True
    then have "k = 1 + n" using k by (simp add: length_lit_header)
    with assms(1,2,3) show ?thesis by simp
  next
    case False
    then have "k = 2 + (n - 19) div 255 + n" using k by (simp add: length_lit_header)
    moreover have "16 * ((n - 19) div 255) \<le> n" by simp
    ultimately show ?thesis using assms(1,2,3) False by simp
  qed
qed

lemma emission_preserves:
  assumes inv: "enc_inv src s"
    and ref: "0 \<le> ref" "ref < int (c_ip s)" "int (c_ip s) - ref \<le> 49151"
    and eq: "\<forall>k < matchLen. src ! (nat ref + k) = src ! (c_ip s + k)"
    and ml: "4 \<le> matchLen" "matchLen \<le> 264" "c_ip s + matchLen \<le> length src"
    and gateA: "isFirstOutput s \<or> c_ip s - litStart s = 0 \<or> 4 \<le> c_ip s - litStart s"
    and gateB: "c_ip s + matchLen = length src \<or> c_ip s + matchLen + 4 \<le> length src"
    and res: "emit_match_at src s (int (c_ip s) - ref) matchLen = CNext s'"
  shows "enc_inv src s' \<and> length (c_dst s') = length (c_dst s)"
proof -
  define L where "L = c_ip s - litStart s"
  define lits where "lits = take L (drop (litStart s) src)"
  define off where "off = c_ip s - nat ref"
  define f where "f = isFirstOutput s"
  define new where "new = (if L > 0 then [Literals lits f] else []) @ [Match (int off) (int matchLen)]"
  have offset: "int (c_ip s) - ref = int off" using ref by (simp add: off_def)
  have offb: "1 \<le> off" "off \<le> 49151" "off \<le> c_ip s" "c_ip s - off = nat ref"
    using ref by (simp_all add: off_def)
  from inv have i: "litStart s \<le> c_ip s" "c_ip s \<le> length src" "c_op s \<le> length (c_dst s)"
    "table_ok src (hashTable s)"
    "run_toks stateStart 0 (trace s) = Some (if f then stateStart else stateLiteralRun, litStart s)"
    "f \<longrightarrow> trace s = []"
    "foldl expand [] (trace s) = take (litStart s) src"
    "take (c_op s) (c_dst s) = concat (map tok_bytes (trace s))"
    "16 * c_op s \<le> 17 * litStart s"
    by (simp_all add: enc_inv_def f_def)
  have ll: "length lits = L" using i(1,2) by (simp add: lits_def L_def)
  have cat: "take (litStart s) src @ lits = take (c_ip s) src"
  proof -
    have "take (litStart s + L) src = take (litStart s) src @ take L (drop (litStart s) src)"
      by (rule take_add)
    moreover have "litStart s + L = c_ip s" using i(1) by (simp add: L_def)
    ultimately show ?thesis by (simp add: lits_def)
  qed
  from emit_match_at_CNext [OF res] obtain n d1 m d2 where
    e1: "if L > 0
         then on_tail (c_dst s) (c_op s) (\<lambda>d. emitLiterals lits d f) = Return n None d1
         else n = 0 \<and> d1 = c_dst s"
    and e2: "on_tail d1 (c_op s + n) (\<lambda>d. emitMatch d (int off) (int matchLen)) = Return m None d2"
    and s': "c_op s' = c_op s + n + m" "c_dst s' = d2" "\<not> isFirstOutput s'"
      "c_ip s' = c_ip s + matchLen" "litStart s' = c_ip s + matchLen"
      "hashTable s' = refresh src (c_ip s + 1) (c_ip s + matchLen) (hashTable s)"
      "trace s' = trace s @ new"
    unfolding L_def [symmetric] lits_def [symmetric] f_def [symmetric] offset new_def
    by (auto split: if_splits)
  define lb where "lb = (if L > 0 then lit_header f L @ lits else [])"
  have lit: "n = length lb \<and> c_op s + n \<le> length (c_dst s) \<and> length d1 = length (c_dst s)
      \<and> take (c_op s + n) d1 = take (c_op s) (c_dst s) @ lb"
  proof (cases "L > 0")
    case True
    then have ne: "lits \<noteq> []" using ll by auto
    from True e1 have "on_tail (c_dst s) (c_op s) (\<lambda>d. emitLiterals lits d f) = Return n None d1"
      by simp
    from emitLiterals_on_tail [OF this ne] True i(3) ll show ?thesis by (simp add: lb_def)
  next
    case False
    with e1 i(3) show ?thesis by (simp add: lb_def)
  qed
  have newb: "concat (map tok_bytes new) = lb @ mat_bytes off matchLen"
    using ll by (simp add: new_def lb_def)
  have mt: "m = length (mat_bytes off matchLen) \<and> c_op s + n + m \<le> length d1
      \<and> d2 = take (c_op s + n) d1 @ mat_bytes off matchLen @ drop (c_op s + n + m) d1"
    using emitMatch_on_tail [OF e2 offb(1,2)] ml by simp
  have len2: "length d2 = length (c_dst s)" using mt lit by simp
  have stream: "take (c_op s + n + m) d2 = take (c_op s) (c_dst s) @ concat (map tok_bytes new)"
  proof -
    have "length (take (c_op s + n) d1) = c_op s + n" using lit by simp
    then have "take (c_op s + n + m) d2 = take (c_op s + n) d1 @ mat_bytes off matchLen"
      using mt by simp
    also have "take (c_op s + n) d1 = take (c_op s) (c_dst s) @ lb"
      using lit by blast
    finally show ?thesis using newb by simp
  qed
  have fL: "f \<Longrightarrow> L > 0"
  proof -
    assume f
    with i(5,6) have "litStart s = 0" by simp
    moreover have "0 < c_ip s" using ref by simp
    ultimately show ?thesis by (simp add: L_def)
  qed
  have rt: "run_toks (if f then stateStart else stateLiteralRun) (litStart s) new
      = Some (stateLiteralRun, c_ip s + matchLen)"
  proof (cases "L > 0")
    case True
    then have ne: "lits \<noteq> []" using ll by auto
    have g: "f \<or> 4 \<le> L" using gateA True by (simp add: f_def L_def)
    have "litStart s + L = c_ip s" using i(1) by (simp add: L_def)
    with True ne g ll offb ml show ?thesis
      by (auto simp: new_def ready_def)
  next
    case False
    with fL have nf: "\<not> f" by blast
    from False i(1) have "litStart s = c_ip s" by (simp add: L_def)
    with False nf offb ml show ?thesis
      by (auto simp: new_def ready_def)
  qed
  have run': "run_toks stateStart 0 (trace s') = Some (stateLiteralRun, litStart s')"
    using i(5) rt s'(5,7) by (simp add: run_toks_append)
  have ex: "foldl expand [] (trace s') = take (litStart s') src"
  proof -
    have "L = 0 \<Longrightarrow> lits = []" using ll by simp
    then have "foldl expand [] (trace s @ (if L > 0 then [Literals lits f] else []))
        = take (c_ip s) src"
      using i(7) cat by auto
    then have "foldl expand [] (trace s') = lz_copy (take (c_ip s) src) off matchLen"
      unfolding s'(7) new_def by simp
    also have "\<dots> = take (c_ip s + matchLen) src"
      using lz_copy_take [OF offb(1,3) ml(3)] eq offb(4) by simp
    finally show ?thesis using s'(5) by simp
  qed
  have acc: "16 * c_op s' \<le> 17 * litStart s'"
  proof -
    have a: "m < matchLen" using mt ml(1) by (auto simp: length_mat_bytes)
    have b: "0 < L \<Longrightarrow> n = length (lit_header f L) + L" using lit ll by (simp add: lb_def)
    have c: "L = 0 \<Longrightarrow> n = 0" using lit by (simp add: lb_def)
    have "16 * (c_op s + n + m) \<le> 17 * (litStart s + L + matchLen)"
      by (rule accounting_step [OF i(9) ml(1) a b c])
    moreover have "litStart s + L = c_ip s" using i(1) by (simp add: L_def)
    ultimately show ?thesis using s'(1,5) by simp
  qed
  have tb: "table_ok src (hashTable s')"
    using i(4) s'(6) by (simp add: table_ok_refresh)
  have "take (c_op s') (c_dst s') = concat (map tok_bytes (trace s'))"
    using stream i(8) s'(1,2,7) by simp
  moreover have "c_op s' \<le> length (c_dst s')" using mt lit s'(1,2) len2 by simp
  ultimately show ?thesis
    using run' ex acc tb s' ml(3) gateB len2
    by (simp add: enc_inv_def)
qed

text \<open>One pass of the loop that goes on either only advances, or emits at a candidate.\<close>

lemma cstep_CNext:
  assumes "cstep src s = CNext s'"
  shows "s' = s\<lparr>hashTable := (hashTable s)(hash src (c_ip s) := int (c_ip s)), c_ip := c_ip s + 1\<rparr>
     \<or> (\<exists>matchLen.
          0 \<le> hashTable s (hash src (c_ip s))
          \<and> hashTable s (hash src (c_ip s)) < int (c_ip s)
          \<and> int (c_ip s) - hashTable s (hash src (c_ip s)) \<le> 49151
          \<and> c_ip s + 4 \<le> length src
          \<and> src ! nat (hashTable s (hash src (c_ip s))) = src ! c_ip s
          \<and> src ! (nat (hashTable s (hash src (c_ip s))) + 1) = src ! (c_ip s + 1)
          \<and> src ! (nat (hashTable s (hash src (c_ip s))) + 2) = src ! (c_ip s + 2)
          \<and> match_length src (nat (hashTable s (hash src (c_ip s)))) (c_ip s) 3
               (if length src - c_ip s > 264 then 264 else length src - c_ip s) = Some matchLen
          \<and> (isFirstOutput s \<or> c_ip s - litStart s = 0 \<or> 4 \<le> c_ip s - litStart s)
          \<and> \<not> (0 < int (length src) - (int (c_ip s) + int matchLen)
                \<and> int (length src) - (int (c_ip s) + int matchLen) < 4)
          \<and> emit_match_at src (s\<lparr>hashTable := (hashTable s)(hash src (c_ip s) := int (c_ip s))\<rparr>)
               (int (c_ip s) - hashTable s (hash src (c_ip s))) matchLen = CNext s')"
proof -
  define h where "h = hash src (c_ip s)"
  define ref where "ref = hashTable s h"
  define s1 where "s1 = s\<lparr>hashTable := (hashTable s)(h := int (c_ip s))\<rparr>"
  define maxLen where "maxLen = (if length src - c_ip s > 264 then 264 else length src - c_ip s)"
  have c: "cstep src s =
     (if int (c_ip s) - ref > 0 \<and> int (c_ip s) - ref \<le> maxOffset \<and> ref \<ge> 0 \<and> c_ip s + 4 \<le> length src then
        (if nat ref + 2 < length src \<and> c_ip s + 2 < length src then
           (if src ! nat ref = src ! c_ip s \<and> src ! (nat ref + 1) = src ! (c_ip s + 1)
               \<and> src ! (nat ref + 2) = src ! (c_ip s + 2) then
              (case match_length src (nat ref) (c_ip s) 3 maxLen of
                 None \<Rightarrow> CFault
               | Some matchLen \<Rightarrow>
                   (if \<not> isFirstOutput s \<and> c_ip s - litStart s > 0 \<and> c_ip s - litStart s < 4 then
                      CNext (s1\<lparr>c_ip := c_ip s + 1\<rparr>)
                    else
                      (if int (length src) - (int (c_ip s) + int matchLen) > 0
                          \<and> int (length src) - (int (c_ip s) + int matchLen) < 4 then
                         CNext (s1\<lparr>c_ip := c_ip s + 1\<rparr>)
                       else emit_match_at src s1 (int (c_ip s) - ref) matchLen)))
            else CNext (s1\<lparr>c_ip := c_ip s + 1\<rparr>))
         else CFault)
      else CNext (s1\<lparr>c_ip := c_ip s + 1\<rparr>))"
    unfolding cstep_def Let_def h_def ref_def s1_def maxLen_def by (rule refl)
  show ?thesis
  proof (cases "s' = s1\<lparr>c_ip := c_ip s + 1\<rparr>")
    case True
    then show ?thesis by (simp add: s1_def h_def)
  next
    case False
    with assms c obtain matchLen where
      "0 \<le> ref" "ref < int (c_ip s)" "int (c_ip s) - ref \<le> maxOffset" "c_ip s + 4 \<le> length src"
      "src ! nat ref = src ! c_ip s" "src ! (nat ref + 1) = src ! (c_ip s + 1)"
      "src ! (nat ref + 2) = src ! (c_ip s + 2)"
      "match_length src (nat ref) (c_ip s) 3 maxLen = Some matchLen"
      "isFirstOutput s \<or> c_ip s - litStart s = 0 \<or> 4 \<le> c_ip s - litStart s"
      "\<not> (0 < int (length src) - (int (c_ip s) + int matchLen)
                \<and> int (length src) - (int (c_ip s) + int matchLen) < 4)"
      "emit_match_at src s1 (int (c_ip s) - ref) matchLen = CNext s'"
      by (auto split: if_splits option.splits)
    then show ?thesis
      unfolding ref_def h_def s1_def maxLen_def maxOffset_def by blast
  qed
qed

lemma enc_inv_advance:
  assumes "enc_inv src s" and "c_ip s + 4 \<le> length src"
  shows "enc_inv src (s\<lparr>hashTable := (hashTable s)(hash src (c_ip s) := int (c_ip s)),
                         c_ip := c_ip s + 1\<rparr>)"
  using assms table_ok_update [of src "hashTable s" "c_ip s"]
  by (simp add: enc_inv_def)

lemma enc_inv_table:
  assumes "enc_inv src s" and "c_ip s + 4 \<le> length src"
  shows "enc_inv src (s\<lparr>hashTable := (hashTable s)(hash src (c_ip s) := int (c_ip s))\<rparr>)"
  using assms table_ok_update [of src "hashTable s" "c_ip s"]
  by (simp add: enc_inv_def)

text \<open>A candidate that passes the three-byte comparison matches in four bytes at least.\<close>

lemma candidate_four:
  assumes tb: "table_ok src tbl" and ip: "i + 4 \<le> length src"
    and ref: "0 \<le> tbl (hash src i)"
    and b: "src ! nat (tbl (hash src i)) = src ! i"
      "src ! (nat (tbl (hash src i)) + 1) = src ! (i + 1)"
      "src ! (nat (tbl (hash src i)) + 2) = src ! (i + 2)"
    and m: "match_length src (nat (tbl (hash src i))) i 3
              (if length src - i > 264 then 264 else length src - i) = Some matchLen"
  shows "4 \<le> matchLen \<and> matchLen \<le> 264 \<and> i + matchLen \<le> length src
         \<and> (\<forall>k < matchLen. src ! (nat (tbl (hash src i)) + k) = src ! (i + k))"
proof -
  define r where "r = nat (tbl (hash src i))"
  define maxLen where "maxLen = (if length src - i > 264 then 264 else length src - i)"
  from tb ref have t: "r + 4 \<le> length src" "hash src r = hash src i"
    by (simp_all add: table_ok_def r_def)
  have "src ! (r + 3) = src ! (i + 3)"
    using hash_fourth_byte [OF ip t(1)] t(2) b by (simp add: r_def)
  moreover have mx: "3 < maxLen" "maxLen \<le> 264" "i + maxLen \<le> length src"
    using ip unfolding maxLen_def by (auto split: if_splits)
  moreover have m': "match_length src r i 3 maxLen = Some matchLen"
    using m by (simp add: r_def maxLen_def)
  ultimately have four: "4 \<le> matchLen" using match_length_four by blast
  from match_length_bounds [OF m'] mx have le: "matchLen \<le> maxLen" by simp
  have "\<forall>k < matchLen. src ! (r + k) = src ! (i + k)"
  proof (intro allI impI)
    fix k assume k: "k < matchLen"
    show "src ! (r + k) = src ! (i + k)"
    proof (cases "k < 3")
      case True
      then have "k = 0 \<or> k = 1 \<or> k = 2" by arith
      with b show ?thesis by (auto simp: r_def)
    next
      case False
      with k match_length_equal [OF m'] show ?thesis by simp
    qed
  qed
  with four le mx show ?thesis by (simp add: r_def)
qed

lemma cstep_preserves:
  assumes inv: "enc_inv src s" and lt: "c_ip s + 3 < length src" and res: "cstep src s = CNext s'"
  shows "enc_inv src s' \<and> length (c_dst s') = length (c_dst s)"
proof -
  from lt have ip4: "c_ip s + 4 \<le> length src" by simp
  define tbl where "tbl = hashTable s"
  define ref where "ref = tbl (hash src (c_ip s))"
  define s1 where "s1 = s\<lparr>hashTable := (hashTable s)(hash src (c_ip s) := int (c_ip s))\<rparr>"
  from cstep_CNext [OF res]
  consider (adv) "s' = s1\<lparr>c_ip := c_ip s + 1\<rparr>"
    | (emit) matchLen where "0 \<le> ref" "ref < int (c_ip s)" "int (c_ip s) - ref \<le> 49151"
      "src ! nat ref = src ! c_ip s" "src ! (nat ref + 1) = src ! (c_ip s + 1)"
      "src ! (nat ref + 2) = src ! (c_ip s + 2)"
      "match_length src (nat ref) (c_ip s) 3
         (if length src - c_ip s > 264 then 264 else length src - c_ip s) = Some matchLen"
      "isFirstOutput s \<or> c_ip s - litStart s = 0 \<or> 4 \<le> c_ip s - litStart s"
      "\<not> (0 < int (length src) - (int (c_ip s) + int matchLen)
                \<and> int (length src) - (int (c_ip s) + int matchLen) < 4)"
      "emit_match_at src s1 (int (c_ip s) - ref) matchLen = CNext s'"
    unfolding ref_def tbl_def s1_def by blast
  then show ?thesis
  proof cases
    case adv
    with enc_inv_advance [OF inv ip4] show ?thesis by (simp add: s1_def)
  next
    case emit
    from inv have tb: "table_ok src tbl" by (simp add: enc_inv_def tbl_def)
    from candidate_four [OF tb ip4] emit(1,4,5,6,7)
    have c: "4 \<le> matchLen" "matchLen \<le> 264" "c_ip s + matchLen \<le> length src"
      "\<forall>k < matchLen. src ! (nat ref + k) = src ! (c_ip s + k)"
      unfolding ref_def by blast+
    have inv1: "enc_inv src s1" using enc_inv_table [OF inv ip4] by (simp add: s1_def)
    have f1: "c_ip s1 = c_ip s" "litStart s1 = litStart s" "isFirstOutput s1 = isFirstOutput s"
      "c_dst s1 = c_dst s"
      by (simp_all add: s1_def)
    have gb: "c_ip s + matchLen = length src \<or> c_ip s + matchLen + 4 \<le> length src"
      using emit(9) c(3) by arith
    from emission_preserves [OF inv1, of ref matchLen s'] emit(1,2,3,8,10) c gb
    show ?thesis by (simp add: f1)
  qed
qed

lemma cloop_preserves:
  "enc_inv src s \<Longrightarrow> cloop src s = CNext s'
     \<Longrightarrow> enc_inv src s' \<and> length (c_dst s') = length (c_dst s) \<and> length src \<le> c_ip s' + 3"
proof (induction src s rule: cloop.induct)
  case (1 src s)
  show ?case
  proof (cases "c_ip s + 3 < length src")
    case True
    with "1.prems"(2) obtain s1 where n: "cstep src s = CNext s1" and r: "cloop src s1 = CNext s'"
      by (auto simp: cloop.simps [of src s] minMatch_def split: cstep.splits)
    from cstep_preserves [OF "1.prems"(1) True n]
    have i1: "enc_inv src s1" and l1: "length (c_dst s1) = length (c_dst s)" by simp_all
    from True have "int (c_ip s) < int (length src) - int minMatch" by (simp add: minMatch_def)
    from "1.IH" [OF this n i1 r] l1 show ?thesis by simp
  next
    case False
    with "1.prems" show ?thesis
      by (simp add: cloop.simps [of src s] minMatch_def)
  qed
qed

section \<open>The stream of a successful call\<close>

lemma emit_eof_success:
  assumes "emit_eof n d = Return m None d'"
  shows "n + 3 \<le> length d \<and> m = n + 3 \<and> d' = take n d @ [0x11, 0, 0] @ drop (n + 3) d"
proof -
  from assms have room: "n + 3 \<le> length d"
    by (auto simp: emit_eof_def split: if_splits)
  from emit_eof_ok [OF room] assms show ?thesis using room by simp
qed

lemma final_bound:
  assumes "16 * a \<le> 17 * (b::nat)" and "k \<le> L + 2 + (L - 19) div 255"
  shows "a + k + 3 \<le> (b + L) + (b + L) div 16 + 67"
proof -
  from assms(1) have "a \<le> b + b div 16" by arith
  moreover have "(L - 19) div 255 \<le> L div 16" by arith
  moreover have "b div 16 + L div 16 \<le> (b + L) div 16" by arith
  ultimately show ?thesis using assms(2) by arith
qed

text \<open>
  What a successful call has written: the opcodes of its emissions and the EOF marker;
  the emissions can follow one another for the decoder and expand to the input.
\<close>

lemma finish_success:
  assumes inv: "enc_inv src s" and fin: "length src \<le> c_ip s + 3" and len: "4 \<le> length src"
    and res: "finish src s = (Return n None d', es)"
  shows "take n d' = concat (map tok_bytes es) @ [0x11, 0, 0] \<and> length d' = length (c_dst s)
         \<and> n \<le> length d' \<and> wf_toks stateStart 0 es \<and> foldl expand [] es = src
         \<and> n \<le> length src + length src div 16 + 67"
proof -
  define L where "L = length src - litStart s"
  define lits where "lits = drop (litStart s) src"
  define f where "f = isFirstOutput s"
  from inv have i: "litStart s \<le> c_ip s" "c_ip s \<le> length src" "c_op s \<le> length (c_dst s)"
    "run_toks stateStart 0 (trace s) = Some (if f then stateStart else stateLiteralRun, litStart s)"
    "f \<longrightarrow> trace s = []"
    "\<not> f \<longrightarrow> litStart s = length src \<or> litStart s + 4 \<le> length src"
    "foldl expand [] (trace s) = take (litStart s) src"
    "take (c_op s) (c_dst s) = concat (map tok_bytes (trace s))"
    "16 * c_op s \<le> 17 * litStart s"
    by (simp_all add: enc_inv_def f_def)
  have ll: "length lits = L" by (simp add: lits_def L_def)
  have sL: "litStart s + L = length src" using i(1,2) by (simp add: L_def)
  have f0: "f \<Longrightarrow> litStart s = 0" using i(4,5) by simp
  have fL: "f \<Longrightarrow> 4 \<le> L" using f0 len by (simp add: L_def)
  have nL: "\<not> f \<Longrightarrow> L = 0 \<or> 4 \<le> L" using i(6) by (auto simp: L_def)
  show ?thesis
  proof (cases "L > 0")
    case True
    then have ne: "lits \<noteq> []" using ll by auto
    from True fL nL have L4: "4 \<le> L" by blast
    from res True obtain k d1 where
      e1: "on_tail (c_dst s) (c_op s) (\<lambda>d. emitLiterals lits d f) = Return k None d1"
      and e2: "emit_eof (c_op s + k) d1 = Return n None d'"
      and es: "es = trace s @ [Literals lits f]"
      unfolding finish_def Let_def L_def [symmetric] lits_def [symmetric] f_def [symmetric]
      by (auto split: result.splits option.splits)
    from emitLiterals_on_tail [OF e1 ne]
    have k: "k = length (lit_header f L) + L" and room: "c_op s + k \<le> length (c_dst s)"
      and d1: "d1 = take (c_op s) (c_dst s) @ (lit_header f L @ lits) @ drop (c_op s + k) (c_dst s)"
      using ll by simp_all
    have ld1: "length d1 = length (c_dst s)" using d1 room i(3) k ll by simp
    have t1: "take (c_op s + k) d1 = take (c_op s) (c_dst s) @ lit_header f L @ lits"
      using d1 i(3) k ll by simp
    from emit_eof_success [OF e2]
    have n: "n = c_op s + k + 3" and room2: "c_op s + k + 3 \<le> length d1"
      and d': "d' = take (c_op s + k) d1 @ [0x11, 0, 0] @ drop (c_op s + k + 3) d1"
      by simp_all
    have lt: "length (take (c_op s + k) d1) = c_op s + k" using room2 by simp
    have "take n d' = take (c_op s + k) d1 @ [0x11, 0, 0]"
      unfolding n d' using lt by simp
    with t1 i(8) es ll have stream: "take n d' = concat (map tok_bytes es) @ [0x11, 0, 0]"
      by simp
    have ld': "length d' = length (c_dst s)" using d' room2 ld1 by simp
    have "run_toks (if f then stateStart else stateLiteralRun) (litStart s) [Literals lits f]
        = Some (stateFirstLiteralRun, length src)"
      using ne L4 ll sL by auto
    with i(4) es have "run_toks stateStart 0 es = Some (stateFirstLiteralRun, length src)"
      by (simp add: run_toks_append)
    then have wf: "wf_toks stateStart 0 es" by (simp add: wf_toks_run_toks ready_def)
    have "take (litStart s) src @ lits = src" by (simp add: lits_def)
    with i(7) es have ex: "foldl expand [] es = src" by simp
    have "k \<le> L + 2 + (L - 19) div 255" using k by (simp add: length_lit_header)
    from final_bound [OF i(9) this] n sL have "n \<le> length src + length src div 16 + 67"
      by simp
    with stream ld' wf ex n room2 ld1 show ?thesis by simp
  next
    case False
    then have L0: "L = 0" by simp
    with fL have nf: "\<not> f" by auto
    from L0 i(1,2) have ls: "litStart s = length src" by (simp add: L_def)
    from res L0 have e2: "emit_eof (c_op s) (c_dst s) = Return n None d'" and es: "es = trace s"
      unfolding finish_def Let_def L_def [symmetric] by simp_all
    from emit_eof_success [OF e2]
    have n: "n = c_op s + 3" and room2: "c_op s + 3 \<le> length (c_dst s)"
      and d': "d' = take (c_op s) (c_dst s) @ [0x11, 0, 0] @ drop (c_op s + 3) (c_dst s)"
      by simp_all
    have lt: "length (take (c_op s) (c_dst s)) = c_op s" using room2 by simp
    have "take n d' = take (c_op s) (c_dst s) @ [0x11, 0, 0]"
      unfolding n d' using lt by simp
    with i(8) es have stream: "take n d' = concat (map tok_bytes es) @ [0x11, 0, 0]"
      by simp
    have ld': "length d' = length (c_dst s)" using d' room2 by simp
    from i(4) nf es have "run_toks stateStart 0 es = Some (stateLiteralRun, litStart s)"
      by simp
    then have wf: "wf_toks stateStart 0 es" by (simp add: wf_toks_run_toks ready_def)
    from i(7) es ls have ex: "foldl expand [] es = src" by simp
    have "(0::nat) \<le> 0 + 2 + (0 - 19) div 255" by simp
    from final_bound [OF i(9) this] n ls have "n \<le> length src + length src div 16 + 67"
      by simp
    with stream ld' wf ex n room2 show ?thesis by simp
  qed
qed

lemma compressLiteralsOnly_success:
  assumes "compressLiteralsOnly src d = Return n None d'" and "src \<noteq> []" and "length src \<le> 3"
  shows "take n d' = tok_bytes (Literals src True) @ [0x11, 0, 0] \<and> length d' = length d
         \<and> n = length src + 4"
proof -
  from assms(1) obtain k d1 where e1: "emitLiterals src d True = Return k None d1"
    and e2: "emit_eof k d1 = Return n None d'"
    by (auto simp: compressLiteralsOnly_def split: result.splits option.splits)
  from emitLiterals_success_room [OF e1 assms(2)]
  have room: "length (lit_header True (length src)) + length src \<le> length d" .
  from emitLiterals_ok [OF assms(2) room] e1
  have k: "k = length (lit_header True (length src)) + length src"
    and d1: "d1 = (lit_header True (length src) @ src) @ drop k d"
    by simp_all
  have "length src \<le> 18" using assms(3) by simp
  then have k1: "k = length src + 1" using k by (simp add: length_lit_header)
  have lh: "length (lit_header True (length src) @ src) = k" using k by simp
  have ld1: "length d1 = length d" using d1 lh room k by simp
  from emit_eof_success [OF e2]
  have n: "n = k + 3" and room2: "k + 3 \<le> length d1"
    and d': "d' = take k d1 @ [0x11, 0, 0] @ drop (k + 3) d1"
    by simp_all
  have tk: "take k d1 = lit_header True (length src) @ src"
    unfolding d1 using lh by simp
  have lt: "length (take k d1) = k" using room2 by simp
  have "take n d' = take k d1 @ [0x11, 0, 0]"
    unfolding n d' using lt by simp
  with tk have "take n d' = tok_bytes (Literals src True) @ [0x11, 0, 0]" by simp
  moreover have "length d' = length d" using d' room2 ld1 by simp
  ultimately show ?thesis using n k1 by simp
qed

lemma Compress_traced_success:
  assumes res: "Compress_traced src d = (Return n None d', es)" and ne: "src \<noteq> []"
  shows "take n d' = concat (map tok_bytes es) @ [0x11, 0, 0] \<and> length d' = length d
         \<and> n \<le> length d' \<and> wf_toks stateStart 0 es \<and> foldl expand [] es = src
         \<and> n \<le> length src + length src div 16 + 67"
proof (cases "length src \<le> 3")
  case True
  with res ne have c: "compressLiteralsOnly src d = Return n None d'" and es: "es = [Literals src True]"
    by (simp_all add: Compress_traced_def)
  from compressLiteralsOnly_success [OF c ne True]
  have s: "take n d' = tok_bytes (Literals src True) @ [0x11, 0, 0]" "length d' = length d"
    "n = length src + 4" by blast+
  have "length src \<le> 18" using True by simp
  then have "length (take n d') = n" unfolding s(1) using s(3) by (simp add: length_lit_header)
  then have "n \<le> length d'" by simp
  moreover have "wf_toks stateStart 0 es" using es ne True by (simp add: ready_def)
  ultimately show ?thesis using s es by simp
next
  case False
  then have len: "4 \<le> length src" by simp
  let ?s0 = "\<lparr>c_ip = 0, c_op = 0, litStart = 0, isFirstOutput = True,
              hashTable = (\<lambda>_. - maxOffset), c_dst = d, trace = []\<rparr>"
  from res False ne obtain s where l: "cloop src ?s0 = CNext s"
    and f: "finish src s = (Return n None d', es)"
    by (auto simp: Compress_traced_def split: cstep.splits)
  from cloop_preserves [OF enc_inv_init l]
  have inv: "enc_inv src s" and ld: "length (c_dst s) = length d" and fin: "length src \<le> c_ip s + 3"
    by simp_all
  from finish_success [OF inv fin len f] ld show ?thesis by simp
qed

section \<open>A destination with room\<close>

text \<open>
  With \<open>len(src) + len(src)/16 + 67\<close> bytes of destination no emitter call fails, so the
  loop runs to its end and the call succeeds.
\<close>

lemma emitLiterals_room:
  assumes "lit \<noteq> []" and "n + length (lit_header f (length lit)) + length lit \<le> length d"
  shows "on_tail d n (\<lambda>x. emitLiterals lit x f)
           = Return (length (lit_header f (length lit)) + length lit) None
               (take n d @ (lit_header f (length lit) @ lit)
                  @ drop (n + (length (lit_header f (length lit)) + length lit)) d)"
proof -
  from assms(2) have n: "n \<le> length d"
    and room: "length (lit_header f (length lit)) + length lit \<le> length (drop n d)"
    by simp_all
  show ?thesis
    by (rule on_tail_ok [OF n]) (simp_all add: emitLiterals_ok [OF assms(1) room])
qed

lemma emitMatch_room:
  assumes "1 \<le> off" and "off \<le> 49151" and "3 \<le> len" and "len \<le> 264" and "n + 4 \<le> length d"
  shows "on_tail d n (\<lambda>x. emitMatch x (int off) (int len))
           = Return (length (mat_bytes off len)) None
               (take n d @ mat_bytes off len @ drop (n + length (mat_bytes off len)) d)"
proof -
  from assms(5) have n: "n \<le> length d" and room: "4 \<le> length (drop n d)"
    by simp_all
  show ?thesis
    by (rule on_tail_ok [OF n]) (simp_all add: emitMatch_ok [OF assms(1-4) room])
qed

lemma emit_match_at_room:
  assumes ip: "c_ip s \<le> length src" and ls: "litStart s \<le> c_ip s"
    and off: "1 \<le> off" "off \<le> 49151" and ml: "3 \<le> matchLen" "matchLen \<le> 264"
    and room: "c_op s + (c_ip s - litStart s) + 2 + (c_ip s - litStart s - 19) div 255 + 4
                 \<le> length (c_dst s)"
  shows "\<exists>s'. emit_match_at src s (int off) matchLen = CNext s'"
proof -
  define L where "L = c_ip s - litStart s"
  define lits where "lits = take L (drop (litStart s) src)"
  define f where "f = isFirstOutput s"
  have ll: "length lits = L" using ip ls by (simp add: lits_def L_def)
  have hl: "length (lit_header f L) \<le> 2 + (L - 19) div 255" by (simp add: length_lit_header)
  show ?thesis
  proof (cases "L > 0")
    case True
    then have ne: "lits \<noteq> []" using ll by auto
    define k where "k = length (lit_header f L) + L"
    define d1 where "d1 = take (c_op s) (c_dst s) @ (lit_header f L @ lits) @ drop (c_op s + k) (c_dst s)"
    have r1: "c_op s + length (lit_header f (length lits)) + length lits \<le> length (c_dst s)"
      using room hl ll by (simp add: L_def)
    have e1: "on_tail (c_dst s) (c_op s) (\<lambda>x. emitLiterals lits x f) = Return k None d1"
      using emitLiterals_room [OF ne r1] by (simp add: k_def d1_def ll)
    have "c_op s + k \<le> length (c_dst s)" using r1 ll by (simp add: k_def)
    then have ld1: "length d1 = length (c_dst s)" by (simp add: d1_def k_def ll)
    have "c_op s + k + 4 \<le> length d1" using room hl ld1 by (simp add: k_def L_def)
    from emitMatch_room [OF off ml this] e1 True ip show ?thesis
      unfolding emit_match_at_def Let_def L_def [symmetric] lits_def [symmetric] f_def [symmetric]
      by simp
  next
    case False
    have "c_op s + 0 + 4 \<le> length (c_dst s)" using room by simp
    from emitMatch_room [OF off ml this] False show ?thesis
      unfolding emit_match_at_def Let_def L_def [symmetric]
      by simp
  qed
qed

lemma room_bound:
  assumes "16 * a \<le> 17 * (b::nat)" and "b + L + 4 \<le> N"
  shows "a + L + 2 + (L - 19) div 255 + 4 \<le> N + N div 16 + 67"
proof -
  from assms(1) have "a \<le> b + b div 16" by arith
  moreover have "(L - 19) div 255 \<le> L div 16" by arith
  moreover have "b div 16 + L div 16 \<le> N div 16" using assms(2) by arith
  ultimately show ?thesis using assms(2) by arith
qed

lemma cstep_room:
  assumes inv: "enc_inv src s" and lt: "c_ip s + 3 < length src"
    and room: "length src + length src div 16 + 67 \<le> length (c_dst s)"
  shows "\<exists>s'. cstep src s = CNext s'"
proof -
  from lt have ip4: "c_ip s + 4 \<le> length src" by simp
  define ref where "ref = hashTable s (hash src (c_ip s))"
  define s1 where "s1 = s\<lparr>hashTable := (hashTable s)(hash src (c_ip s) := int (c_ip s))\<rparr>"
  define maxLen where "maxLen = (if length src - c_ip s > 264 then 264 else length src - c_ip s)"
  from inv have i: "litStart s \<le> c_ip s" "table_ok src (hashTable s)" "16 * c_op s \<le> 17 * litStart s"
    by (simp_all add: enc_inv_def)
  show ?thesis
  proof (cases "int (c_ip s) - ref > 0 \<and> int (c_ip s) - ref \<le> maxOffset \<and> ref \<ge> 0")
    case False
    then show ?thesis
      unfolding cstep_def Let_def ref_def by auto
  next
    case True
    then have r: "0 \<le> ref" "ref < int (c_ip s)" "int (c_ip s) - ref \<le> 49151"
      by (simp_all add: maxOffset_def)
    from i(2) r(1) have r4: "nat ref + 4 \<le> length src"
      by (simp add: table_ok_def ref_def)
    then have idx: "nat ref + 2 < length src \<and> c_ip s + 2 < length src" using ip4 by simp
    show ?thesis
    proof (cases "src ! nat ref = src ! c_ip s \<and> src ! (nat ref + 1) = src ! (c_ip s + 1)
               \<and> src ! (nat ref + 2) = src ! (c_ip s + 2)")
      case False
      with True idx ip4 show ?thesis
        unfolding cstep_def Let_def ref_def [symmetric] by auto
    next
      case eq: True
      have mx: "c_ip s + maxLen \<le> length src" "maxLen \<le> 264"
        using ip4 unfolding maxLen_def by (auto split: if_splits)
      have "nat ref \<le> c_ip s" using r by simp
      from match_length_total [OF this mx(1)] obtain matchLen where
        m: "match_length src (nat ref) (c_ip s) 3 maxLen = Some matchLen" by blast
      have "3 \<le> maxLen" using ip4 unfolding maxLen_def by (auto split: if_splits)
      with match_length_bounds [OF m] mx have ml: "3 \<le> matchLen" "matchLen \<le> 264" by simp_all
      define off where "off = c_ip s - nat ref"
      have offset: "int (c_ip s) - ref = int off" using r by (simp add: off_def)
      have offb: "1 \<le> off" "off \<le> 49151" using r by (simp_all add: off_def)
      have f1: "c_ip s1 = c_ip s" "litStart s1 = litStart s" "c_dst s1 = c_dst s" "c_op s1 = c_op s"
        by (simp_all add: s1_def)
      have "litStart s + (c_ip s - litStart s) + 4 \<le> length src" using i(1) ip4 by simp
      from room_bound [OF i(3) this] room
      have "c_op s + (c_ip s - litStart s) + 2 + (c_ip s - litStart s - 19) div 255 + 4
              \<le> length (c_dst s)" by simp
      with emit_match_at_room [of s1 src off matchLen] offb ml i(1) ip4 f1
      obtain s' where e: "emit_match_at src s1 (int (c_ip s) - ref) matchLen = CNext s'"
        unfolding offset by auto
      have c: "cstep src s =
                   (if \<not> isFirstOutput s \<and> c_ip s - litStart s > 0 \<and> c_ip s - litStart s < 4 then
                      CNext (s1\<lparr>c_ip := c_ip s + 1\<rparr>)
                    else
                      (if int (length src) - (int (c_ip s) + int matchLen) > 0
                          \<and> int (length src) - (int (c_ip s) + int matchLen) < 4 then
                         CNext (s1\<lparr>c_ip := c_ip s + 1\<rparr>)
                       else emit_match_at src s1 (int (c_ip s) - ref) matchLen))"
        using True idx ip4 eq m
        unfolding cstep_def Let_def ref_def [symmetric] s1_def [symmetric] maxLen_def [symmetric]
        by simp
      show ?thesis unfolding c using e by simp
    qed
  qed
qed

lemma cloop_room:
  "enc_inv src s \<Longrightarrow> length src + length src div 16 + 67 \<le> length (c_dst s)
     \<Longrightarrow> \<exists>s'. cloop src s = CNext s'"
proof (induction src s rule: cloop.induct)
  case (1 src s)
  show ?case
  proof (cases "c_ip s + 3 < length src")
    case True
    from cstep_room [OF "1.prems"(1) True "1.prems"(2)] obtain s1 where
      n: "cstep src s = CNext s1" by blast
    from cstep_preserves [OF "1.prems"(1) True n]
    have i1: "enc_inv src s1" and l1: "length (c_dst s1) = length (c_dst s)" by simp_all
    from True have c: "int (c_ip s) < int (length src) - int minMatch" by (simp add: minMatch_def)
    from "1.IH" [OF c n i1] l1 "1.prems"(2) obtain s' where "cloop src s1 = CNext s'" by auto
    with c n show ?thesis by (simp add: cloop.simps [of src s])
  next
    case False
    then show ?thesis by (simp add: cloop.simps [of src s] minMatch_def)
  qed
qed

lemma finish_room:
  assumes inv: "enc_inv src s"
    and room: "length src + length src div 16 + 67 \<le> length (c_dst s)"
  shows "\<exists>n d'. fst (finish src s) = Return n None d'"
proof -
  define L where "L = length src - litStart s"
  define lits where "lits = drop (litStart s) src"
  define f where "f = isFirstOutput s"
  from inv have i: "litStart s \<le> c_ip s" "c_ip s \<le> length src" "16 * c_op s \<le> 17 * litStart s"
    by (simp_all add: enc_inv_def)
  have ll: "length lits = L" by (simp add: lits_def L_def)
  have sL: "litStart s + L = length src" using i(1,2) by (simp add: L_def)
  have hl: "length (lit_header f L) \<le> 2 + (L - 19) div 255" by (simp add: length_lit_header)
  have "length (lit_header f L) + L \<le> L + 2 + (L - 19) div 255" using hl by simp
  from final_bound [OF i(3) this] sL room
  have r: "c_op s + (length (lit_header f L) + L) + 3 \<le> length (c_dst s)" by simp
  show ?thesis
  proof (cases "L > 0")
    case True
    then have ne: "lits \<noteq> []" using ll by auto
    define k where "k = length (lit_header f L) + L"
    define d1 where "d1 = take (c_op s) (c_dst s) @ (lit_header f L @ lits) @ drop (c_op s + k) (c_dst s)"
    have r1: "c_op s + length (lit_header f (length lits)) + length lits \<le> length (c_dst s)"
      using r ll by simp
    have e1: "on_tail (c_dst s) (c_op s) (\<lambda>x. emitLiterals lits x f) = Return k None d1"
      using emitLiterals_room [OF ne r1] by (simp add: k_def d1_def ll)
    have "c_op s + k \<le> length (c_dst s)" using r1 ll by (simp add: k_def)
    then have ld1: "length d1 = length (c_dst s)" by (simp add: d1_def k_def ll)
    have "c_op s + k + 3 \<le> length d1" using r ld1 by (simp add: k_def)
    from emit_eof_ok [OF this] e1 True show ?thesis
      unfolding finish_def Let_def L_def [symmetric] lits_def [symmetric] f_def [symmetric]
      by simp
  next
    case False
    have "c_op s + 3 \<le> length (c_dst s)" using r by simp
    from emit_eof_ok [OF this] False show ?thesis
      unfolding finish_def Let_def L_def [symmetric]
      by simp
  qed
qed

lemma Compress_room:
  assumes "length src + length src div 16 + 67 \<le> length d"
  shows "\<exists>n d'. Compress src d = Return n None d'"
proof (cases "length src \<le> 3")
  case True
  show ?thesis
  proof (cases "src = []")
    case True
    then show ?thesis by (simp add: Compress_def Compress_traced_def)
  next
    case False
    have h: "length (lit_header True (length src)) = 1" using True by (simp add: length_lit_header)
    have room: "length (lit_header True (length src)) + length src \<le> length d"
      using assms True h by simp
    have "length (lit_header True (length src)) + length src + 3
            \<le> length (lit_header True (length src) @ src
                  @ drop (length (lit_header True (length src)) + length src) d)"
      using assms True h by simp
    from emit_eof_ok [OF this] emitLiterals_ok [OF False room] True False show ?thesis
      by (simp add: Compress_def Compress_traced_def compressLiteralsOnly_def)
  qed
next
  case False
  let ?s0 = "\<lparr>c_ip = 0, c_op = 0, litStart = 0, isFirstOutput = True,
              hashTable = (\<lambda>_. - maxOffset), c_dst = d, trace = []\<rparr>"
  from cloop_room [OF enc_inv_init, of src d] assms obtain s where l: "cloop src ?s0 = CNext s"
    by auto
  from cloop_preserves [OF enc_inv_init l]
  have inv: "enc_inv src s" and ld: "length (c_dst s) = length d" by simp_all
  from finish_room [OF inv] ld assms obtain n d' where "fst (finish src s) = Return n None d'"
    by auto
  with l False show ?thesis by (simp add: Compress_def Compress_traced_def)
qed

section \<open>Round trip and size bound\<close>

lemma int64_id: "- (2 ^ 63) \<le> x \<Longrightarrow> x < 2 ^ 63 \<Longrightarrow> int64 x = x"
  unfolding int64_def by (simp add: signed_take_bit_int_eq_self)

lemma MaxCompressedSize_small:
  assumes "- (2 ^ 62) < n" and "n < 2 ^ 62"
  shows "MaxCompressedSize n
           = (if n = 0 then 3 else n + (if 0 \<le> n then n div 16 else - ((- n) div 16)) + 64 + 3)"
proof (cases "0 \<le> n")
  case True
  with assms(2) show ?thesis
    by (simp add: MaxCompressedSize_def go_div_def int64_id)
next
  case False
  then have n: "n < 0" by simp
  define q where "q = go_div n 16"
  have g: "q = - ((- n) div 16)" using n by (simp add: q_def go_div_def)
  have d: "n \<le> q" "q \<le> 0" using n unfolding g by simp_all
  have 1: "int64 (n + q) = n + q"
    using assms(1) n d by (intro int64_id) simp_all
  have 2: "int64 (n + q + 64) = n + q + 64"
    using assms(1) n d by (intro int64_id) simp_all
  have 3: "int64 (n + q + 64 + 3) = n + q + 64 + 3"
    using assms(1) n d by (intro int64_id) simp_all
  have "MaxCompressedSize n = n + q + 64 + 3"
    using n unfolding MaxCompressedSize_def q_def [symmetric] 1 2 3 by simp
  also have "\<dots> = n + - ((- n) div 16) + 64 + 3" unfolding g ..
  finally show ?thesis using n by simp
qed

lemma MaxCompressedSize_length:
  assumes "length x < 2 ^ 62"
  shows "MaxCompressedSize (int (length x))
           = (if x = [] then 3 else int (length x + length x div 16 + 67))"
proof -
  have "int (length x) < 2 ^ 62" using assms by (simp add: of_nat_less_numeral_power_cancel_iff)
  moreover have "- (2 ^ 62) < int (length x)" by (simp add: less_le_trans [of _ 0])
  ultimately show ?thesis
    using MaxCompressedSize_small [of "int (length x)"] by (simp add: zdiv_int)
qed

lemma Compress_success_traced:
  "Compress x d = Return n None d' \<Longrightarrow> \<exists>es. Compress_traced x d = (Return n None d', es)"
  by (cases "Compress_traced x d") (simp add: Compress_def)

lemma Compress_empty: "Compress [] d = Return 0 None d"
  by (simp add: Compress_def Compress_traced_def)

lemma sum_tok_len:
  "foldl expand [] es = x \<Longrightarrow> sum_list (map tok_len es) = length x"
  using length_foldl_expand [of "[]" es] by simp

lemma round_trip:
  assumes c: "Compress x d = Return n None d'" and room: "length x \<le> length c"
  shows "\<exists>c'. Decompress (take n d') c = Return (length x) None c' \<and> length c' = length c
           \<and> take (length x) c' = x"
proof (cases "x = []")
  case True
  with c have "n = 0" by (simp add: Compress_empty)
  with True show ?thesis by (simp add: Decompress_def)
next
  case False
  from Compress_success_traced [OF c] obtain es where
    t: "Compress_traced x d = (Return n None d', es)" by blast
  from Compress_traced_success [OF t False]
  have s: "take n d' = concat (map tok_bytes es) @ [0x11, 0, 0]" "wf_toks stateStart 0 es"
    "foldl expand [] es = x" by blast+
  have l: "sum_list (map tok_len es) = length x" using sum_tok_len [OF s(3)] .
  from Decompress_toks [OF s(2), of c] room l s(1,3) show ?thesis by simp
qed

lemma Compress_fits:
  assumes "length x < 2 ^ 62" and "MaxCompressedSize (int (length x)) \<le> int (length d)"
  shows "\<exists>n d'. Compress x d = Return n None d'"
proof (cases "x = []")
  case True
  then show ?thesis by (simp add: Compress_empty)
next
  case False
  with assms have "length x + length x div 16 + 67 \<le> length d"
    by (simp add: MaxCompressedSize_length)
  then show ?thesis by (rule Compress_room)
qed


text \<open>
  Claim C1. For every input \<open>x\<close> and every output buffer \<open>c\<close> of the decoder with room for
  \<open>x\<close>: whenever \<open>Compress x d\<close> succeeds with \<open>n\<close> bytes written, \<open>Decompress\<close> on those
  \<open>n\<close> bytes succeeds, returns the length of \<open>x\<close> and has written exactly \<open>x\<close>. And
  \<open>Compress\<close> does succeed on every input of at most 64 KiB when the destination has
  \<open>MaxCompressedSize(len(x))\<close> bytes.
\<close>

theorem Compress_Decompress_round_trip:
  "(length x \<le> length c \<and> Compress x d = Return n None d' \<longrightarrow>
      (\<exists>c'. Decompress (take n d') c = Return (length x) None c' \<and> length c' = length c
         \<and> take (length x) c' = x))
   \<and> (length x \<le> 65536 \<and> MaxCompressedSize (int (length x)) \<le> int (length d) \<longrightarrow>
      (\<exists>n d'. Compress x d = Return n None d'))"
proof (intro conjI impI)
  assume "length x \<le> length c \<and> Compress x d = Return n None d'"
  then show "\<exists>c'. Decompress (take n d') c = Return (length x) None c' \<and> length c' = length c
         \<and> take (length x) c' = x"
    using round_trip [of x d n d' c] by simp
next
  assume a: "length x \<le> 65536 \<and> MaxCompressedSize (int (length x)) \<le> int (length d)"
  then have "length x < 2 ^ 62" by simp
  with a show "\<exists>n d'. Compress x d = Return n None d'"
    using Compress_fits [of x d] by simp
qed

theorem Compress_Decompress_round_trip_witness:
  "(\<exists>n d' c'. Compress [0x41, 0x42, 0x43, 0x44, 0x41, 0x42, 0x43, 0x44, 0x41, 0x42, 0x43, 0x44]
                 (replicate 79 0) = Return n None d'
      \<and> Decompress (take n d') (replicate 12 0) = Return 12 None c'
      \<and> take 12 c' = [0x41, 0x42, 0x43, 0x44, 0x41, 0x42, 0x43, 0x44, 0x41, 0x42, 0x43, 0x44])
   \<and> Compress [0x41, 0x42] [0, 0, 0, 0, 0, 0] = Return 6 None [0x13, 0x41, 0x42, 0x11, 0, 0]
   \<and> (\<exists>c'. Decompress (take 6 [0x13, 0x41, 0x42, 0x11, 0, 0]) [0, 0] = Return 2 None c'
         \<and> take 2 c' = [0x41, 0x42])"
proof -
  let ?x = "[0x41, 0x42, 0x43, 0x44, 0x41, 0x42, 0x43, 0x44, 0x41, 0x42, 0x43, 0x44] :: byte list"
  have m: "MaxCompressedSize (int (length ?x)) \<le> int (length (replicate 79 (0 :: byte)))"
    by (simp add: MaxCompressedSize_def go_div_def int64_def signed_take_bit_int_eq_self)
  have l: "length ?x = 12" by simp
  have h2: "length ?x \<le> 65536 \<and> MaxCompressedSize (int (length ?x)) \<le> int (length (replicate 79 (0 :: byte)))"
    using m by simp
  from Compress_Decompress_round_trip [of ?x "replicate 12 0" "replicate 79 0" 0 "[]",
      THEN conjunct2, THEN mp, OF h2]
  obtain n d' where c: "Compress ?x (replicate 79 0) = Return n None d'"
    by blast
  have h1: "length ?x \<le> length (replicate 12 (0 :: byte)) \<and> Compress ?x (replicate 79 0) = Return n None d'"
    using c by simp
  from Compress_Decompress_round_trip [of ?x "replicate 12 0" "replicate 79 0" n d',
      THEN conjunct1, THEN mp, OF h1]
  obtain c' where "Decompress (take n d') (replicate 12 0) = Return (length ?x) None c'"
    and "take (length ?x) c' = ?x"
    by blast
  then have "Decompress (take n d') (replicate 12 0) = Return 12 None c'" and "take 12 c' = ?x"
    unfolding l by blast+
  with c have 1: "\<exists>n d' c'. Compress ?x (replicate 79 0) = Return n None d'
      \<and> Decompress (take n d') (replicate 12 0) = Return 12 None c' \<and> take 12 c' = ?x"
    by blast
  have 2: "Compress [0x41, 0x42] [0, 0, 0, 0, 0, 0] = Return 6 None [0x13, 0x41, 0x42, 0x11, 0, 0]"
    by code_simp
  from 2 Compress_Decompress_round_trip [of "[0x41, 0x42]" "[0, 0]" "[0, 0, 0, 0, 0, 0]" 6
      "[0x13, 0x41, 0x42, 0x11, 0, 0]"]
  have 3: "\<exists>c'. Decompress (take 6 [0x13, 0x41, 0x42, 0x11, 0, 0]) [0, 0] = Return 2 None c'
         \<and> take 2 c' = [0x41, 0x42]"
    by (auto simp: numeral_2_eq_2)
  from 1 2 3 show ?thesis by blast
qed



section \<open>The two gates of the encoder\<close>

text \<open>
  A pass of the loop at a state where one of the two gates is closed only records the
  position in the hash table and advances \<open>ip\<close>: nothing is emitted.
\<close>

lemma cstep_refuses:
  assumes "(\<not> isFirstOutput s \<and> 0 < c_ip s - litStart s \<and> c_ip s - litStart s < 4)
     \<or> (\<exists>matchLen.
           match_length src (nat (hashTable s (hash src (c_ip s)))) (c_ip s) 3
             (if length src - c_ip s > 264 then 264 else length src - c_ip s) = Some matchLen
           \<and> 0 < int (length src) - (int (c_ip s) + int matchLen)
           \<and> int (length src) - (int (c_ip s) + int matchLen) < 4)"
  shows "cstep src s
           = CNext (s\<lparr>hashTable := (hashTable s)(hash src (c_ip s) := int (c_ip s)),
                      c_ip := c_ip s + 1\<rparr>)"
proof -
  define ref where "ref = hashTable s (hash src (c_ip s))"
  define s1 where "s1 = s\<lparr>hashTable := (hashTable s)(hash src (c_ip s) := int (c_ip s))\<rparr>"
  define maxLen where "maxLen = (if length src - c_ip s > 264 then 264 else length src - c_ip s)"
  show ?thesis
  proof (cases "int (c_ip s) - ref > 0 \<and> int (c_ip s) - ref \<le> maxOffset \<and> ref \<ge> 0
                  \<and> c_ip s + 4 \<le> length src")
    case False
    then show ?thesis
      unfolding cstep_def Let_def ref_def by auto
  next
    case True
    then have r: "0 \<le> ref" "ref < int (c_ip s)" and ip4: "c_ip s + 4 \<le> length src"
      by simp_all
    then have idx: "nat ref + 2 < length src \<and> c_ip s + 2 < length src" by simp
    show ?thesis
    proof (cases "src ! nat ref = src ! c_ip s \<and> src ! (nat ref + 1) = src ! (c_ip s + 1)
               \<and> src ! (nat ref + 2) = src ! (c_ip s + 2)")
      case False
      with True idx show ?thesis
        unfolding cstep_def Let_def ref_def [symmetric] by auto
    next
      case eq: True
      have mx: "c_ip s + maxLen \<le> length src"
        using ip4 unfolding maxLen_def by (auto split: if_splits)
      have "nat ref \<le> c_ip s" using r by simp
      from match_length_total [OF this mx] obtain m where
        m: "match_length src (nat ref) (c_ip s) 3 maxLen = Some m" by blast
      have c: "cstep src s =
                   (if \<not> isFirstOutput s \<and> c_ip s - litStart s > 0 \<and> c_ip s - litStart s < 4 then
                      CNext (s1\<lparr>c_ip := c_ip s + 1\<rparr>)
                    else
                      (if int (length src) - (int (c_ip s) + int m) > 0
                          \<and> int (length src) - (int (c_ip s) + int m) < 4 then
                         CNext (s1\<lparr>c_ip := c_ip s + 1\<rparr>)
                       else emit_match_at src s1 (int (c_ip s) - ref) m))"
        using True idx eq m
        unfolding cstep_def Let_def ref_def [symmetric] s1_def [symmetric] maxLen_def [symmetric]
        by simp
      from assms m have "(\<not> isFirstOutput s \<and> 0 < c_ip s - litStart s \<and> c_ip s - litStart s < 4)
          \<or> (0 < int (length src) - (int (c_ip s) + int m)
              \<and> int (length src) - (int (c_ip s) + int m) < 4)"
        unfolding ref_def [symmetric] maxLen_def [symmetric] by auto
      then show ?thesis unfolding c by (auto simp: s1_def)
    qed
  qed
qed

lemma wf_toks_later:
  "wf_toks k n es \<Longrightarrow> k \<noteq> stateStart \<Longrightarrow> Literals lit f \<in> set es \<Longrightarrow> \<not> f \<and> 4 \<le> length lit"
proof (induction es arbitrary: k n)
  case Nil
  then show ?case by simp
next
  case (Cons e es)
  show ?case
  proof (cases e)
    case (Literals lit' f')
    with Cons.prems have w: "\<not> f'" "4 \<le> length lit'"
      "wf_toks stateFirstLiteralRun (n + length lit') es"
      by simp_all
    from Cons.prems(3) Literals have "(lit = lit' \<and> f = f') \<or> Literals lit f \<in> set es" by auto
    then show ?thesis
    proof
      assume "lit = lit' \<and> f = f'"
      with w show ?thesis by simp
    next
      assume "Literals lit f \<in> set es"
      with Cons.IH [OF w(3)] show ?thesis by simp
    qed
  next
    case (Match off len)
    with Cons.prems have w: "wf_toks stateLiteralRun (n + nat len) es" and "Literals lit f \<in> set es"
      by simp_all
    with Cons.IH [OF w] show ?thesis by simp
  qed
qed

lemma wf_toks_first:
  assumes "wf_toks stateStart 0 es"
  shows "\<exists>lit rest. es = Literals lit True # rest
           \<and> (\<forall>lit' f. Literals lit' f \<in> set rest \<longrightarrow> \<not> f \<and> 4 \<le> length lit')"
proof (cases es)
  case Nil
  with assms show ?thesis by (simp add: ready_def)
next
  case (Cons e rest)
  show ?thesis
  proof (cases e)
    case (Literals lit f)
    with assms Cons have f: "f"
      and w: "wf_toks (if length lit \<le> 3 then stateMatchNext else stateFirstLiteralRun)
                (0 + length lit) rest"
      by simp_all
    have "(if length lit \<le> 3 then stateMatchNext else stateFirstLiteralRun) \<noteq> stateStart"
      by simp
    from wf_toks_later [OF w this] Cons Literals f show ?thesis by blast
  next
    case (Match off len)
    with assms Cons show ?thesis by (simp add: ready_def)
  qed
qed

text \<open>
  Claim C4. (a) At every state in which output has been emitted and one, two or three
  literals are pending, and (b) at every state whose candidate match, of the length the
  loop computes for it, would leave one, two or three bytes before the end of the input,
  the pass of the loop only records the position in the hash table and advances \<open>ip\<close>
  by one: no match and no literal run is emitted. Consequently a successful call on a
  non-empty input has emitted an initial literal run, and every literal run after it has
  at least four bytes; the bytes written are the opcodes of these emissions and the EOF
  marker, and the emissions expand to the input.
\<close>

theorem short_literal_runs_refused:
  "(\<not> isFirstOutput s \<and> 0 < c_ip s - litStart s \<and> c_ip s - litStart s < 4 \<longrightarrow>
      cstep src s
        = CNext (s\<lparr>hashTable := (hashTable s)(hash src (c_ip s) := int (c_ip s)),
                   c_ip := c_ip s + 1\<rparr>))
   \<and> (match_length src (nat (hashTable s (hash src (c_ip s)))) (c_ip s) 3
         (if length src - c_ip s > 264 then 264 else length src - c_ip s) = Some matchLen
       \<and> 0 < int (length src) - (int (c_ip s) + int matchLen)
       \<and> int (length src) - (int (c_ip s) + int matchLen) < 4 \<longrightarrow>
      cstep src s
        = CNext (s\<lparr>hashTable := (hashTable s)(hash src (c_ip s) := int (c_ip s)),
                   c_ip := c_ip s + 1\<rparr>))
   \<and> (x \<noteq> [] \<and> Compress x d = Return n None d' \<longrightarrow>
      (\<exists>lit rest. Compress_traced x d = (Return n None d', Literals lit True # rest)
         \<and> take n d' = concat (map tok_bytes (Literals lit True # rest)) @ [0x11, 0, 0]
         \<and> foldl expand [] (Literals lit True # rest) = x
         \<and> (\<forall>lit' f. Literals lit' f \<in> set rest \<longrightarrow> \<not> f \<and> 4 \<le> length lit')))"
proof (intro conjI impI)
  assume "\<not> isFirstOutput s \<and> 0 < c_ip s - litStart s \<and> c_ip s - litStart s < 4"
  then show "cstep src s
        = CNext (s\<lparr>hashTable := (hashTable s)(hash src (c_ip s) := int (c_ip s)),
                   c_ip := c_ip s + 1\<rparr>)"
    by (intro cstep_refuses) simp
next
  assume "match_length src (nat (hashTable s (hash src (c_ip s)))) (c_ip s) 3
         (if length src - c_ip s > 264 then 264 else length src - c_ip s) = Some matchLen
       \<and> 0 < int (length src) - (int (c_ip s) + int matchLen)
       \<and> int (length src) - (int (c_ip s) + int matchLen) < 4"
  then show "cstep src s
        = CNext (s\<lparr>hashTable := (hashTable s)(hash src (c_ip s) := int (c_ip s)),
                   c_ip := c_ip s + 1\<rparr>)"
    by (intro cstep_refuses) blast
next
  assume a: "x \<noteq> [] \<and> Compress x d = Return n None d'"
  then obtain es where t: "Compress_traced x d = (Return n None d', es)"
    using Compress_success_traced by blast
  from a Compress_traced_success [OF t]
  have s: "take n d' = concat (map tok_bytes es) @ [0x11, 0, 0]" "wf_toks stateStart 0 es"
    "foldl expand [] es = x" by blast+
  from wf_toks_first [OF s(2)] obtain lit rest where
    "es = Literals lit True # rest"
    "\<forall>lit' f. Literals lit' f \<in> set rest \<longrightarrow> \<not> f \<and> 4 \<le> length lit'" by blast
  with t s show "\<exists>lit rest. Compress_traced x d = (Return n None d', Literals lit True # rest)
         \<and> take n d' = concat (map tok_bytes (Literals lit True # rest)) @ [0x11, 0, 0]
         \<and> foldl expand [] (Literals lit True # rest) = x
         \<and> (\<forall>lit' f. Literals lit' f \<in> set rest \<longrightarrow> \<not> f \<and> 4 \<le> length lit')"
    by blast
qed

lemma gate_b_length:
  "match_length [0x41, 0x41, 0x41, 0x41, 0x41, 0x41, 0x41, 0x41, 0x42]
     (nat (((\<lambda>_. - maxOffset) (hash [0x41, 0x41, 0x41, 0x41, 0x41, 0x41, 0x41, 0x41, 0x42] 0 := 0)) (hash [0x41, 0x41, 0x41, 0x41, 0x41, 0x41, 0x41, 0x41, 0x42] 1))) 1 3
     (if length [0x41 :: byte, 0x41, 0x41, 0x41, 0x41, 0x41, 0x41, 0x41, 0x42] - 1 > 264 then 264 else length [0x41 :: byte, 0x41, 0x41, 0x41, 0x41, 0x41, 0x41, 0x41, 0x42] - 1) = Some 7"
proof -
  have h: "hash [0x41, 0x41, 0x41, 0x41, 0x41, 0x41, 0x41, 0x41, 0x42] 1 = hash [0x41, 0x41, 0x41, 0x41, 0x41, 0x41, 0x41, 0x41, 0x42] 0"
    by (simp add: hash_def)
  have "match_length [0x41, 0x41, 0x41, 0x41, 0x41, 0x41, 0x41, 0x41, 0x42] 0 1 3 8 = Some 7"
    by code_simp
  moreover have "nat (((\<lambda>_. - maxOffset) (hash [0x41, 0x41, 0x41, 0x41, 0x41, 0x41, 0x41, 0x41, 0x42] 0 := 0)) (hash [0x41, 0x41, 0x41, 0x41, 0x41, 0x41, 0x41, 0x41, 0x42] 1)) = 0"
    unfolding h by simp
  moreover have "(if length [0x41 :: byte, 0x41, 0x41, 0x41, 0x41, 0x41, 0x41, 0x41, 0x42] - 1 > 264 then 264 else length [0x41 :: byte, 0x41, 0x41, 0x41, 0x41, 0x41, 0x41, 0x41, 0x42] - 1) = 8"
    by simp
  ultimately show ?thesis by (simp only:)
qed

theorem short_literal_runs_refused_witness:
  "cstep [0x41, 0x42, 0x43, 0x44, 0x41, 0x42, 0x43, 0x44, 0x58, 0x41, 0x42, 0x43, 0x44]
      \<lparr>c_ip = 9, c_op = 7, litStart = 8, isFirstOutput = False,
        hashTable = (\<lambda>_. - maxOffset)(hash [0x41, 0x42, 0x43, 0x44, 0x41, 0x42, 0x43, 0x44, 0x58, 0x41, 0x42, 0x43, 0x44] 4 := 4),
        c_dst = [0x01, 0x41, 0x42, 0x43, 0x44, 0x60, 0x0c, 0, 0, 0, 0, 0, 0, 0, 0, 0],
        trace = [Literals [0x41, 0x42, 0x43, 0x44] True, Match 4 4]\<rparr>
     = CNext
      \<lparr>c_ip = 10, c_op = 7, litStart = 8, isFirstOutput = False,
        hashTable = (\<lambda>_. - maxOffset)(hash [0x41, 0x42, 0x43, 0x44, 0x41, 0x42, 0x43, 0x44, 0x58, 0x41, 0x42, 0x43, 0x44] 4 := 4, hash [0x41, 0x42, 0x43, 0x44, 0x41, 0x42, 0x43, 0x44, 0x58, 0x41, 0x42, 0x43, 0x44] 9 := 9),
        c_dst = [0x01, 0x41, 0x42, 0x43, 0x44, 0x60, 0x0c, 0, 0, 0, 0, 0, 0, 0, 0, 0],
        trace = [Literals [0x41, 0x42, 0x43, 0x44] True, Match 4 4]\<rparr>
   \<and> cstep [0x41, 0x41, 0x41, 0x41, 0x41, 0x41, 0x41, 0x41, 0x42]
      \<lparr>c_ip = 0, c_op = 0, litStart = 0, isFirstOutput = True,
        hashTable = (\<lambda>_. - maxOffset), c_dst = [], trace = []\<rparr>
     = CNext \<lparr>c_ip = 1, c_op = 0, litStart = 0, isFirstOutput = True,
        hashTable = (\<lambda>_. - maxOffset)(hash [0x41, 0x41, 0x41, 0x41, 0x41, 0x41, 0x41, 0x41, 0x42] 0 := 0), c_dst = [], trace = []\<rparr>
   \<and> cstep [0x41, 0x41, 0x41, 0x41, 0x41, 0x41, 0x41, 0x41, 0x42]
      \<lparr>c_ip = 1, c_op = 0, litStart = 0, isFirstOutput = True,
        hashTable = (\<lambda>_. - maxOffset)(hash [0x41, 0x41, 0x41, 0x41, 0x41, 0x41, 0x41, 0x41, 0x42] 0 := 0), c_dst = [], trace = []\<rparr>
     = CNext \<lparr>c_ip = 2, c_op = 0, litStart = 0, isFirstOutput = True,
        hashTable = (\<lambda>_. - maxOffset)(hash [0x41, 0x41, 0x41, 0x41, 0x41, 0x41, 0x41, 0x41, 0x42] 0 := 0, hash [0x41, 0x41, 0x41, 0x41, 0x41, 0x41, 0x41, 0x41, 0x42] 1 := 1),
        c_dst = [], trace = []\<rparr>
   \<and> (\<exists>n d' lit rest.
         Compress_traced [0x41, 0x42, 0x43, 0x44, 0x41, 0x42, 0x43, 0x44, 0x58, 0x41, 0x42, 0x43, 0x44] (replicate 80 0) = (Return n None d', Literals lit True # rest)
         \<and> take n d' = concat (map tok_bytes (Literals lit True # rest)) @ [0x11, 0, 0]
         \<and> foldl expand [] (Literals lit True # rest) = [0x41, 0x42, 0x43, 0x44, 0x41, 0x42, 0x43, 0x44, 0x58, 0x41, 0x42, 0x43, 0x44]
         \<and> (\<forall>lit' f. Literals lit' f \<in> set rest \<longrightarrow> \<not> f \<and> 4 \<le> length lit'))"
proof -
  let ?sa = "\<lparr>c_ip = 9, c_op = 7, litStart = 8, isFirstOutput = False,
        hashTable = (\<lambda>_. - maxOffset)(hash [0x41, 0x42, 0x43, 0x44, 0x41, 0x42, 0x43, 0x44, 0x58, 0x41, 0x42, 0x43, 0x44] 4 := 4),
        c_dst = [0x01, 0x41, 0x42, 0x43, 0x44, 0x60, 0x0c, 0, 0, 0, 0, 0, 0, 0, 0, 0 :: byte],
        trace = [Literals [0x41, 0x42, 0x43, 0x44] True, Match 4 4]\<rparr>"
  let ?sb = "\<lparr>c_ip = 1, c_op = 0, litStart = 0, isFirstOutput = True,
        hashTable = (\<lambda>_. - maxOffset)(hash [0x41, 0x41, 0x41, 0x41, 0x41, 0x41, 0x41, 0x41, 0x42] 0 := 0), c_dst = [] :: byte list, trace = []\<rparr>"
  have 1: "cstep [0x41, 0x42, 0x43, 0x44, 0x41, 0x42, 0x43, 0x44, 0x58, 0x41, 0x42, 0x43, 0x44] ?sa
     = CNext
      \<lparr>c_ip = 10, c_op = 7, litStart = 8, isFirstOutput = False,
        hashTable = (\<lambda>_. - maxOffset)(hash [0x41, 0x42, 0x43, 0x44, 0x41, 0x42, 0x43, 0x44, 0x58, 0x41, 0x42, 0x43, 0x44] 4 := 4, hash [0x41, 0x42, 0x43, 0x44, 0x41, 0x42, 0x43, 0x44, 0x58, 0x41, 0x42, 0x43, 0x44] 9 := 9),
        c_dst = [0x01, 0x41, 0x42, 0x43, 0x44, 0x60, 0x0c, 0, 0, 0, 0, 0, 0, 0, 0, 0],
        trace = [Literals [0x41, 0x42, 0x43, 0x44] True, Match 4 4]\<rparr>"
    using short_literal_runs_refused [of ?sa "[0x41, 0x42, 0x43, 0x44, 0x41, 0x42, 0x43, 0x44, 0x58, 0x41, 0x42, 0x43, 0x44]" 0 "[]" "[]" 0 "[]", THEN conjunct1]
    by simp
  have 2: "cstep [0x41, 0x41, 0x41, 0x41, 0x41, 0x41, 0x41, 0x41, 0x42]
      \<lparr>c_ip = 0, c_op = 0, litStart = 0, isFirstOutput = True,
        hashTable = (\<lambda>_. - maxOffset), c_dst = [], trace = []\<rparr> = CNext ?sb"
    by (simp add: cstep_def Let_def maxOffset_def)
  have g: "match_length [0x41, 0x41, 0x41, 0x41, 0x41, 0x41, 0x41, 0x41, 0x42] (nat (hashTable ?sb (hash [0x41, 0x41, 0x41, 0x41, 0x41, 0x41, 0x41, 0x41, 0x42] (c_ip ?sb)))) (c_ip ?sb) 3
         (if length [0x41 :: byte, 0x41, 0x41, 0x41, 0x41, 0x41, 0x41, 0x41, 0x42] - c_ip ?sb > 264 then 264 else length [0x41 :: byte, 0x41, 0x41, 0x41, 0x41, 0x41, 0x41, 0x41, 0x42] - c_ip ?sb) = Some 7
       \<and> 0 < int (length [0x41 :: byte, 0x41, 0x41, 0x41, 0x41, 0x41, 0x41, 0x41, 0x42]) - (int (c_ip ?sb) + int 7)
       \<and> int (length [0x41 :: byte, 0x41, 0x41, 0x41, 0x41, 0x41, 0x41, 0x41, 0x42]) - (int (c_ip ?sb) + int 7) < 4"
    using gate_b_length by simp
  have 3: "cstep [0x41, 0x41, 0x41, 0x41, 0x41, 0x41, 0x41, 0x41, 0x42] ?sb
     = CNext \<lparr>c_ip = 2, c_op = 0, litStart = 0, isFirstOutput = True,
        hashTable = (\<lambda>_. - maxOffset)(hash [0x41, 0x41, 0x41, 0x41, 0x41, 0x41, 0x41, 0x41, 0x42] 0 := 0, hash [0x41, 0x41, 0x41, 0x41, 0x41, 0x41, 0x41, 0x41, 0x42] 1 := 1),
        c_dst = [], trace = []\<rparr>"
    using short_literal_runs_refused [of ?sb "[0x41, 0x41, 0x41, 0x41, 0x41, 0x41, 0x41, 0x41, 0x42]" 7 "[]" "[]" 0 "[]",
        THEN conjunct2, THEN conjunct1, THEN mp, OF g]
    by simp
  have "length [0x41 :: byte, 0x42, 0x43, 0x44, 0x41, 0x42, 0x43, 0x44, 0x58, 0x41, 0x42, 0x43, 0x44] + length [0x41 :: byte, 0x42, 0x43, 0x44, 0x41, 0x42, 0x43, 0x44, 0x58, 0x41, 0x42, 0x43, 0x44] div 16 + 67 \<le> length (replicate 80 (0 :: byte))"
    by simp
  from Compress_room [OF this] obtain n d' where
    c: "[0x41 :: byte, 0x42, 0x43, 0x44, 0x41, 0x42, 0x43, 0x44, 0x58, 0x41, 0x42, 0x43, 0x44] \<noteq> [] \<and> Compress [0x41, 0x42, 0x43, 0x44, 0x41, 0x42, 0x43, 0x44, 0x58, 0x41, 0x42, 0x43, 0x44] (replicate 80 0) = Return n None d'"
    by auto
  from short_literal_runs_refused [of ?sa "[0x41, 0x42, 0x43, 0x44, 0x41, 0x42, 0x43, 0x44, 0x58, 0x41, 0x42, 0x43, 0x44]" 0 "[0x41, 0x42, 0x43, 0x44, 0x41, 0x42, 0x43, 0x44, 0x58, 0x41, 0x42, 0x43, 0x44]" "replicate 80 0" n d',
      THEN conjunct2, THEN conjunct2, THEN mp, OF c]
  have 4: "\<exists>n d' lit rest.
         Compress_traced [0x41, 0x42, 0x43, 0x44, 0x41, 0x42, 0x43, 0x44, 0x58, 0x41, 0x42, 0x43, 0x44] (replicate 80 0) = (Return n None d', Literals lit True # rest)
         \<and> take n d' = concat (map tok_bytes (Literals lit True # rest)) @ [0x11, 0, 0]
         \<and> foldl expand [] (Literals lit True # rest) = [0x41, 0x42, 0x43, 0x44, 0x41, 0x42, 0x43, 0x44, 0x58, 0x41, 0x42, 0x43, 0x44]
         \<and> (\<forall>lit' f. Literals lit' f \<in> set rest \<longrightarrow> \<not> f \<and> 4 \<le> length lit')"
    by blast
  from 1 2 3 4 show ?thesis by blast
qed

section \<open>No offset reuse in the output of the encoder\<close>

lemma M2_tag_low_bits:
  assumes "3 \<le> len" and "len \<le> 4" and "1 \<le> off" and "off \<le> 1792"
  shows "64 \<le> unat (hd (mat_bytes off len))
         \<and> unat (hd (mat_bytes off len)) AND 0x1f = (off - 1) div 64 \<and> (off - 1) div 64 \<le> 27"
proof -
  define q where "q = (off - 1) div 64"
  have q: "q \<le> 27" using assms(4) unfolding q_def by simp
  have l: "len = 3 \<or> len = 4" using assms(1,2) by arith
  define v where "v = 32 * (len - 1) + q"
  have v: "v < 256" "64 \<le> v" "v mod 32 = q" using l q unfolding v_def by auto
  have "hd (mat_bytes off len) = of_nat v"
    using assms(2,4) by (simp add: mat_bytes_def v_def q_def del: of_nat_add of_nat_mult)
  then have "unat (hd (mat_bytes off len)) = v" using v(1) by (simp only: unat_byte_of_nat)
  with v q have "64 \<le> unat (hd (mat_bytes off len))
      \<and> unat (hd (mat_bytes off len)) AND 0x1f = q \<and> q \<le> 27"
    by (simp add: nat_and_mask_mod)
  then show ?thesis unfolding q_def .
qed

lemma mat_bytes_no_reuse:
  assumes "1 \<le> off" and "off \<le> 49151" and "3 \<le> len" and "len \<le> 264"
  shows "\<not> (64 \<le> unat (hd (mat_bytes off len)) \<and> 0x1c \<le> unat (hd (mat_bytes off len)) AND 0x1f)"
proof (cases "len \<le> 4 \<and> off \<le> 1792")
  case True
  with M2_tag_low_bits [of len off] assms show ?thesis by simp
next
  case False
  have b: "16 + 8 * ((off - 16384) div 16384) + (len - 2) < 64" if "len \<le> 9"
  proof -
    have "(off - 16384) div 16384 < 2" using assms(2) by simp
    with that show ?thesis by simp
  qed
  have c: "16 + 8 * ((off - 16384) div 16384) < 64"
  proof -
    have "(off - 16384) div 16384 < 2" using assms(2) by simp
    then show ?thesis by simp
  qed
  have d: "32 + (len - 2) < 64" if "len \<le> 33" using that assms(3) by simp
  have u: "x < 64 \<Longrightarrow> unat (of_nat x :: byte) < 64" for x
    by (simp add: unat_byte_of_nat)
  have "unat (hd (mat_bytes off len)) < 64"
    using False assms u [OF b] u [OF c] u [OF d]
    by (auto simp: mat_bytes_def simp del: of_nat_add of_nat_mult)
  then show ?thesis by simp
qed

lemma emitMatch_M2:
  assumes "3 \<le> len" and "len \<le> 4" and "1 \<le> offset" and "offset \<le> 0x700" and "4 \<le> length dm"
  shows "\<exists>d1. emitMatch dm offset len = Return 2 None d1 \<and> 64 \<le> unat (d1 ! 0)
           \<and> int (unat (d1 ! 0) AND 0x1f) = drop_bit 6 (offset - 1)
           \<and> unat (d1 ! 0) AND 0x1f \<le> 0x1b"
proof -
  define off where "off = nat offset"
  define ln where "ln = nat len"
  have i: "offset = int off" "len = int ln" using assms by (simp_all add: off_def ln_def)
  have b: "3 \<le> ln" "ln \<le> 4" "1 \<le> off" "off \<le> 1792" "off \<le> 49151" "ln \<le> 264"
    using assms by (simp_all add: off_def ln_def)
  from emitMatch_ok [OF b(3,5,1,6) assms(5)]
  have e: "emitMatch dm offset len
        = Return (length (mat_bytes off ln)) None (mat_bytes off ln @ drop (length (mat_bytes off ln)) dm)"
    unfolding i .
  have l: "length (mat_bytes off ln) = 2" using b by (simp add: length_mat_bytes)
  have h: "(mat_bytes off ln @ drop (length (mat_bytes off ln)) dm) ! 0 = hd (mat_bytes off ln)"
    using mat_bytes_not_Nil [of off ln] by (cases "mat_bytes off ln") simp_all
  have "drop_bit 6 (offset - 1) = int ((off - 1) div 64)"
    using b(3) unfolding i by (simp add: drop_bit_eq_div zdiv_int of_nat_diff)
  with M2_tag_low_bits [OF b(1-4)] e l h show ?thesis by simp
qed

lemma plain_reaches:
  "plain_steps src s s' \<Longrightarrow> state s' = stateEOF \<Longrightarrow> reaches src s t \<Longrightarrow> no_reuse src t"
proof (induction arbitrary: t rule: plain_steps.induct)
  case (plain_refl s)
  from plain_refl(2,1) show ?case
    by (cases rule: reaches.cases) (simp_all add: no_reuse_def)
next
  case (plain_step s s1 s2)
  from plain_step.prems(2) show ?case
  proof (cases rule: reaches.cases)
    case reaches_refl
    with plain_step.hyps(1) show ?thesis by simp
  next
    case (reaches_step s1')
    with plain_step.hyps(3) have "s1' = s1" by simp
    with reaches_step plain_step.IH [OF plain_step.prems(1)] show ?thesis by simp
  qed
qed

text \<open>
  Claim C9. An M2 opcode written by \<open>emitMatch\<close> (length 3 or 4, offset 1 to \<open>0x700\<close>) has
  a tag of at least 64 whose low five bits are \<open>(offset - 1) >> 6\<close>, at most \<open>0x1b\<close>. In
  the stream of a successful \<open>Compress\<close> no match opcode has a tag of at least 64 with low
  five bits of \<open>0x1c\<close> or more; and the decoder, run on that stream with room for the
  input, stands at no loop head in \<open>stateMatch\<close> before such a tag: it never takes the
  offset-reuse path.
\<close>

theorem Compress_never_emits_offset_reuse:
  "(3 \<le> len \<and> len \<le> 4 \<and> 1 \<le> offset \<and> offset \<le> 0x700 \<and> 4 \<le> length dm \<longrightarrow>
      (\<exists>d1. emitMatch dm offset len = Return 2 None d1 \<and> 64 \<le> unat (d1 ! 0)
         \<and> int (unat (d1 ! 0) AND 0x1f) = drop_bit 6 (offset - 1)
         \<and> unat (d1 ! 0) AND 0x1f \<le> 0x1b))
   \<and> (x \<noteq> [] \<and> Compress x d = Return n None d' \<longrightarrow>
      (\<exists>es. Compress_traced x d = (Return n None d', es)
         \<and> take n d' = concat (map tok_bytes es) @ [0x11, 0, 0]
         \<and> (\<forall>off ln. Match off ln \<in> set es \<longrightarrow>
               \<not> (64 \<le> unat (hd (tok_bytes (Match off ln)))
                  \<and> 0x1c \<le> unat (hd (tok_bytes (Match off ln))) AND 0x1f))))
   \<and> (length x \<le> length c \<and> Compress x d = Return n None d' \<longrightarrow>
      (\<forall>s. reaches (take n d') \<lparr>ip = 0, op = 0, lastMOff = 0, state = stateStart, dst = c\<rparr> s \<longrightarrow>
           \<not> (state s = stateMatch \<and> ip s < length (take n d')
              \<and> 64 \<le> unat (take n d' ! ip s) \<and> 0x1c \<le> unat (take n d' ! ip s) AND 0x1f)))"
proof (intro conjI impI allI)
  assume "3 \<le> len \<and> len \<le> 4 \<and> 1 \<le> offset \<and> offset \<le> 0x700 \<and> 4 \<le> length dm"
  then show "\<exists>d1. emitMatch dm offset len = Return 2 None d1 \<and> 64 \<le> unat (d1 ! 0)
         \<and> int (unat (d1 ! 0) AND 0x1f) = drop_bit 6 (offset - 1)
         \<and> unat (d1 ! 0) AND 0x1f \<le> 0x1b"
    using emitMatch_M2 [of len offset dm] by simp
next
  assume a: "x \<noteq> [] \<and> Compress x d = Return n None d'"
  then obtain es where t: "Compress_traced x d = (Return n None d', es)"
    using Compress_success_traced by blast
  from a Compress_traced_success [OF t]
  have s: "take n d' = concat (map tok_bytes es) @ [0x11, 0, 0]" "wf_toks stateStart 0 es"
    by blast+
  from s(2) obtain r where r: "run_toks stateStart 0 es = Some r"
    by (auto simp: wf_toks_run_toks)
  have "\<forall>off ln. Match off ln \<in> set es \<longrightarrow>
               \<not> (64 \<le> unat (hd (tok_bytes (Match off ln)))
                  \<and> 0x1c \<le> unat (hd (tok_bytes (Match off ln))) AND 0x1f)"
  proof (intro allI impI)
    fix off ln
    assume "Match off ln \<in> set es"
    from run_toks_matches [OF r this]
    have "1 \<le> nat off" "nat off \<le> 49151" "3 \<le> nat ln" "nat ln \<le> 264" by auto
    from mat_bytes_no_reuse [OF this]
    show "\<not> (64 \<le> unat (hd (tok_bytes (Match off ln)))
                  \<and> 0x1c \<le> unat (hd (tok_bytes (Match off ln))) AND 0x1f)"
      by simp
  qed
  with t s(1) show "\<exists>es. Compress_traced x d = (Return n None d', es)
         \<and> take n d' = concat (map tok_bytes es) @ [0x11, 0, 0]
         \<and> (\<forall>off ln. Match off ln \<in> set es \<longrightarrow>
               \<not> (64 \<le> unat (hd (tok_bytes (Match off ln)))
                  \<and> 0x1c \<le> unat (hd (tok_bytes (Match off ln))) AND 0x1f))"
    by blast
next
  fix s
  assume a: "length x \<le> length c \<and> Compress x d = Return n None d'"
    and r: "reaches (take n d') \<lparr>ip = 0, op = 0, lastMOff = 0, state = stateStart, dst = c\<rparr> s"
  show "\<not> (state s = stateMatch \<and> ip s < length (take n d')
              \<and> 64 \<le> unat (take n d' ! ip s) \<and> 0x1c \<le> unat (take n d' ! ip s) AND 0x1f)"
  proof (cases "x = []")
    case True
    with a have "n = 0" by (simp add: Compress_empty)
    then show ?thesis by simp
  next
    case False
    from a obtain es where t: "Compress_traced x d = (Return n None d', es)"
      using Compress_success_traced by blast
    from Compress_traced_success [OF t False]
    have st: "take n d' = concat (map tok_bytes es) @ [0x11, 0, 0]" "wf_toks stateStart 0 es"
      "foldl expand [] es = x" by blast+
    have l: "sum_list (map tok_len es) = length x" using sum_tok_len [OF st(3)] .
    let ?s0 = "\<lparr>ip = 0, op = 0, lastMOff = 0, state = stateStart, dst = c\<rparr>"
    from decode_toks [OF st(2), of ?s0 "take n d'" "[]"] st(1) l a
    obtain s' where "plain_steps (take n d') ?s0 s'" "state s' = stateEOF"
      by auto
    from plain_reaches [OF this r] show ?thesis by (simp add: no_reuse_def)
  qed
qed

theorem Compress_never_emits_offset_reuse_witness:
  "(\<exists>d1. emitMatch [0, 0, 0, 0] 1792 4 = Return 2 None d1 \<and> 64 \<le> unat (d1 ! 0)
       \<and> int (unat (d1 ! 0) AND 0x1f) = 27 \<and> unat (d1 ! 0) AND 0x1f \<le> 0x1b)
   \<and> (\<exists>n d' es. Compress_traced [0x41, 0x42, 0x43, 0x44, 0x41, 0x42, 0x43, 0x44, 0x58, 0x41, 0x42, 0x43, 0x44] (replicate 80 0) = (Return n None d', es)
         \<and> take n d' = concat (map tok_bytes es) @ [0x11, 0, 0]
         \<and> (\<forall>off ln. Match off ln \<in> set es \<longrightarrow>
               \<not> (64 \<le> unat (hd (tok_bytes (Match off ln)))
                  \<and> 0x1c \<le> unat (hd (tok_bytes (Match off ln))) AND 0x1f))
         \<and> (\<forall>s. reaches (take n d')
                   \<lparr>ip = 0, op = 0, lastMOff = 0, state = stateStart, dst = replicate 13 0\<rparr> s \<longrightarrow>
               \<not> (state s = stateMatch \<and> ip s < length (take n d')
                  \<and> 64 \<le> unat (take n d' ! ip s) \<and> 0x1c \<le> unat (take n d' ! ip s) AND 0x1f)))"
proof -
  have h1: "(3::int) \<le> 4 \<and> (4::int) \<le> 4 \<and> (1::int) \<le> 1792 \<and> (1792::int) \<le> 0x700
      \<and> 4 \<le> length [0 :: byte, 0, 0, 0]"
    by simp
  from Compress_never_emits_offset_reuse [of 4 1792 "[0, 0, 0, 0]" "[]" "[]" 0 "[]" "[]",
      THEN conjunct1, THEN mp, OF h1]
  have 1: "\<exists>d1. emitMatch [0, 0, 0, 0] 1792 4 = Return 2 None d1 \<and> 64 \<le> unat (d1 ! 0)
       \<and> int (unat (d1 ! 0) AND 0x1f) = 27 \<and> unat (d1 ! 0) AND 0x1f \<le> 0x1b"
    by (simp add: drop_bit_eq_div)
  have "length [0x41 :: byte, 0x42, 0x43, 0x44, 0x41, 0x42, 0x43, 0x44, 0x58, 0x41, 0x42, 0x43, 0x44] + length [0x41 :: byte, 0x42, 0x43, 0x44, 0x41, 0x42, 0x43, 0x44, 0x58, 0x41, 0x42, 0x43, 0x44] div 16 + 67 \<le> length (replicate 80 (0 :: byte))"
    by simp
  from Compress_room [OF this] obtain n d' where
    c: "Compress [0x41, 0x42, 0x43, 0x44, 0x41, 0x42, 0x43, 0x44, 0x58, 0x41, 0x42, 0x43, 0x44] (replicate 80 0) = Return n None d'"
    by auto
  have h2: "[0x41 :: byte, 0x42, 0x43, 0x44, 0x41, 0x42, 0x43, 0x44, 0x58, 0x41, 0x42, 0x43, 0x44] \<noteq> [] \<and> Compress [0x41, 0x42, 0x43, 0x44, 0x41, 0x42, 0x43, 0x44, 0x58, 0x41, 0x42, 0x43, 0x44] (replicate 80 0) = Return n None d'"
    using c by simp
  have h3: "length [0x41 :: byte, 0x42, 0x43, 0x44, 0x41, 0x42, 0x43, 0x44, 0x58, 0x41, 0x42, 0x43, 0x44] \<le> length (replicate 13 (0 :: byte))
      \<and> Compress [0x41, 0x42, 0x43, 0x44, 0x41, 0x42, 0x43, 0x44, 0x58, 0x41, 0x42, 0x43, 0x44] (replicate 80 0) = Return n None d'"
    using c by simp
  note t = Compress_never_emits_offset_reuse [of 4 1792 "[0, 0, 0, 0]" "[0x41, 0x42, 0x43, 0x44, 0x41, 0x42, 0x43, 0x44, 0x58, 0x41, 0x42, 0x43, 0x44]" "replicate 80 0" n d'
      "replicate 13 0"]
  from t [THEN conjunct2, THEN conjunct1, THEN mp, OF h2]
    t [THEN conjunct2, THEN conjunct2, THEN mp, OF h3]
  have 2: "\<exists>n d' es. Compress_traced [0x41, 0x42, 0x43, 0x44, 0x41, 0x42, 0x43, 0x44, 0x58, 0x41, 0x42, 0x43, 0x44] (replicate 80 0) = (Return n None d', es)
         \<and> take n d' = concat (map tok_bytes es) @ [0x11, 0, 0]
         \<and> (\<forall>off ln. Match off ln \<in> set es \<longrightarrow>
               \<not> (64 \<le> unat (hd (tok_bytes (Match off ln)))
                  \<and> 0x1c \<le> unat (hd (tok_bytes (Match off ln))) AND 0x1f))
         \<and> (\<forall>s. reaches (take n d')
                   \<lparr>ip = 0, op = 0, lastMOff = 0, state = stateStart, dst = replicate 13 0\<rparr> s \<longrightarrow>
               \<not> (state s = stateMatch \<and> ip s < length (take n d')
                  \<and> 64 \<le> unat (take n d' ! ip s) \<and> 0x1c \<le> unat (take n d' ! ip s) AND 0x1f))"
    by blast
  from 1 2 show ?thesis by blast
qed

end
